theory Spec2Isabelle
  imports Main "HOL-Library.AList"
begin

section \<open>Name translation (utils.ts: toKebabCase, toCamelCase)\<close>

text \<open>
  JavaScript strings are modelled as \<^typ>\<open>string\<close>. The regular expressions of
  \<^verbatim>\<open>utils.ts\<close> only ever match ASCII characters, every other character is copied
  unchanged by \<^verbatim>\<open>String.prototype.replace\<close>.
\<close>

definition is_lower :: "char \<Rightarrow> bool" where
  "is_lower c = (97 \<le> (of_char c :: nat) \<and> (of_char c :: nat) \<le> 122)"

definition is_upper :: "char \<Rightarrow> bool" where
  "is_upper c = (65 \<le> (of_char c :: nat) \<and> (of_char c :: nat) \<le> 90)"

definition is_digit :: "char \<Rightarrow> bool" where
  "is_digit c = (48 \<le> (of_char c :: nat) \<and> (of_char c :: nat) \<le> 57)"

text \<open>The class \<^verbatim>\<open>\w\<close>, which is \<^verbatim>\<open>[A-Za-z0-9_]\<close>; \<^verbatim>\<open>[\w\d]\<close> is the same class.\<close>

definition is_word :: "char \<Rightarrow> bool" where
  "is_word c = (is_lower c \<or> is_upper c \<or> is_digit c \<or> c = CHR ''_'')"

text \<open>\<^verbatim>\<open>toLowerCase\<close> and \<^verbatim>\<open>toUpperCase\<close> on one character of \<^verbatim>\<open>\w\<close>.\<close>

definition toLowerCase :: "char \<Rightarrow> char" where
  "toLowerCase c = (if is_upper c then char_of ((of_char c :: nat) + 32) else c)"

definition toUpperCase :: "char \<Rightarrow> char" where
  "toUpperCase c = (if is_lower c then char_of ((of_char c :: nat) - 32) else c)"

text \<open>
  \<^verbatim>\<open>prop.replace(/([a-z0-9])([A-Z])/g, replacer)\<close> with
  \<^verbatim>\<open>replacer = (_, a, b) => `${a}-${b.toLowerCase()}`\<close>: a global replace scans from the
  left, and after a match it goes on behind the matched text.
\<close>

fun replace_camel_hump :: "string \<Rightarrow> string" where
  "replace_camel_hump (a # b # rest) =
     (if (is_lower a \<or> is_digit a) \<and> is_upper b
      then a # CHR ''-'' # toLowerCase b # replace_camel_hump rest
      else a # replace_camel_hump (b # rest))"
| "replace_camel_hump xs = xs"

text \<open>\<^verbatim>\<open>.replace(/([\w])_([\w])/g, replacer)\<close> with the same replacer.\<close>

fun replace_snake :: "string \<Rightarrow> string" where
  "replace_snake (a # u # b # rest) =
     (if is_word a \<and> u = CHR ''_'' \<and> is_word b
      then a # CHR ''-'' # toLowerCase b # replace_snake rest
      else a # replace_snake (u # b # rest))"
| "replace_snake xs = xs"

definition toKebabCase :: "string \<Rightarrow> string" where
  "toKebabCase prop = replace_snake (replace_camel_hump prop)"

text \<open>\<^verbatim>\<open>attr.replace(/[-_]([\w\d])/g, (_, c) => c.toUpperCase())\<close>.\<close>

fun toCamelCase :: "string \<Rightarrow> string" where
  "toCamelCase (s # c # rest) =
     (if (s = CHR ''-'' \<or> s = CHR ''_'') \<and> is_word c
      then toUpperCase c # toCamelCase rest
      else s # toCamelCase (c # rest))"
| "toCamelCase xs = xs"


section \<open>Values and errors\<close>

text \<open>
  The \<^verbatim>\<open>toString\<close> property of an object, as \<^verbatim>\<open>serialize\<close> looks at it: missing or
  falsy (\<^verbatim>\<open>{toString: null}\<close>), a method returning a string, or some other truthy value that
  cannot be called.
\<close>

datatype toString_slot = ToStringFalsy | ToStringMethod string | ToStringNotCallable

text \<open>
  The values a property can hold. Numbers are \<^verbatim>\<open>NaN\<close> and the integers that JavaScript
  prints in plain decimal digits (below \<^verbatim>\<open>1e21\<close> in magnitude); an object carries its
  reference (its identity) and its \<^verbatim>\<open>toString\<close> property, a \<^verbatim>\<open>URL\<close> object its reference
  and its \<^verbatim>\<open>href\<close>.
\<close>

datatype jsval =
    JUndefined
  | JNull
  | JBool bool
  | JNum int
  | JNaN
  | JStr string
  | JUrl nat string
  | JObj nat toString_slot

datatype js_error = TypeError | EvalError | SyntaxError | ParseError

text \<open>The operator \<^verbatim>\<open>===\<close>: objects are compared by reference, \<^verbatim>\<open>NaN\<close> equals nothing.\<close>

fun strict_eq :: "jsval \<Rightarrow> jsval \<Rightarrow> bool" where
  "strict_eq JNaN b = False"
| "strict_eq (JUrl r h) (JUrl r' h') = (r = r')"
| "strict_eq (JObj r t) (JObj r' t') = (r = r')"
| "strict_eq a b = (a = b)"

text \<open>\<^verbatim>\<open>!value\<close>.\<close>

fun falsy :: "jsval \<Rightarrow> bool" where
  "falsy JUndefined = True"
| "falsy JNull = True"
| "falsy (JBool b) = (\<not> b)"
| "falsy (JNum n) = (n = 0)"
| "falsy JNaN = True"
| "falsy (JStr s) = (s = [])"
| "falsy (JUrl r h) = False"
| "falsy (JObj r t) = False"

fun show_nat :: "nat \<Rightarrow> string" where
  "show_nat n =
     (if n < 10 then [char_of (48 + n)]
      else show_nat (n div 10) @ [char_of (48 + n mod 10)])"

declare show_nat.simps [simp del]

definition show_int :: "int \<Rightarrow> string" where
  "show_int i = (if i < 0 then CHR ''-'' # show_nat (nat (- i)) else show_nat (nat i))"

text \<open>
  The string form of a primitive value or of a \<^verbatim>\<open>URL\<close>: the template literal
  \<^verbatim>\<open>`${value}`\<close>, and what the built-in \<^verbatim>\<open>toString\<close> returns. The codec applies it to no
  other object.
\<close>

fun template_string :: "jsval \<Rightarrow> string" where
  "template_string JUndefined = ''undefined''"
| "template_string JNull = ''null''"
| "template_string (JBool b) = (if b then ''true'' else ''false'')"
| "template_string (JNum n) = show_int n"
| "template_string JNaN = ''NaN''"
| "template_string (JStr s) = s"
| "template_string (JUrl r h) = h"
| "template_string (JObj r t) = (case t of ToStringMethod s \<Rightarrow> s | _ \<Rightarrow> [])"

text \<open>
  \<^verbatim>\<open>value.toString\<close> followed by the call \<^verbatim>\<open>value.toString()\<close>, for a value that is not
  falsy: \<^verbatim>\<open>None\<close> when the property is falsy, otherwise the outcome of the call.
\<close>

fun toString_call :: "jsval \<Rightarrow> (js_error + string) option" where
  "toString_call (JObj r ToStringFalsy) = None"
| "toString_call (JObj r (ToStringMethod s)) = Some (Inr s)"
| "toString_call (JObj r ToStringNotCallable) = Some (Inl TypeError)"
| "toString_call v = Some (Inr (template_string v))"

text \<open>The property read \<^verbatim>\<open>(value as URL).href\<close>.\<close>

fun href :: "jsval \<Rightarrow> js_error + jsval" where
  "href JUndefined = Inl TypeError"
| "href JNull = Inl TypeError"
| "href (JUrl r h) = Inr (JStr h)"
| "href v = Inr JUndefined"

section \<open>Property configuration (types.d.ts, decorators.ts)\<close>

text \<open>
  The converters: the built-in objects \<^verbatim>\<open>JSON\<close>, \<^verbatim>\<open>URL\<close> and \<^verbatim>\<open>Boolean\<close>, or a class
  with a static \<^verbatim>\<open>parse\<close>, known by its identity.
\<close>

datatype converter = JSON | URL | Boolean | Custom nat

text \<open>
  \<^verbatim>\<open>ConfigObject\<close>. A field is \<^verbatim>\<open>None\<close> while the key is absent from the object:
  the component tests \<^verbatim>\<open>effect in propertyConfig\<close>.
\<close>

record prop_config =
  converter :: "converter option"
  attribute :: "string option"
  notify :: "string option"
  reflect :: "bool option"

definition empty_config :: prop_config where
  "empty_config = \<lparr>converter = None, attribute = None, notify = None, reflect = None\<rparr>"

text \<open>
  \<^verbatim>\<open>ComponentConfig\<close>, of which the engine's bookkeeping reads \<^verbatim>\<open>properties\<close> only: an object
  whose keys keep their insertion order.
\<close>

record component_config =
  properties :: "(string \<times> prop_config) list option"

text \<open>\<^verbatim>\<open>prototype[CONFIG]\<close>, absent until a decorator creates it.\<close>

type_synonym prototype = "component_config option"

datatype property_key = StringKey string | SymbolKey nat

text \<open>
  \<^verbatim>\<open>getPropertyConfig\<close>: the three \<^verbatim>\<open>x || (x = {})\<close> steps. It returns the prototype with
  the missing levels created, and the property's configuration object. Property names are
  taken not to be members of \<^verbatim>\<open>Object.prototype\<close> (\<^verbatim>\<open>toString\<close>, \<^verbatim>\<open>valueOf\<close>), which the
  lookup \<^verbatim>\<open>properties[propertyKey]\<close> would find without an own entry, and not to be written
  like an array index, which \<^verbatim>\<open>Object.keys\<close> would list before the others.
\<close>

definition getPropertyConfig :: "prototype \<Rightarrow> string \<Rightarrow> prototype \<times> prop_config" where
  "getPropertyConfig proto propertyKey =
     (let config = (case proto of None \<Rightarrow> \<lparr>properties = None\<rparr> | Some c \<Rightarrow> c);
          props = (case properties config of None \<Rightarrow> [] | Some ps \<Rightarrow> ps)
      in case map_of props propertyKey of
           Some pc \<Rightarrow> (Some (config\<lparr>properties := Some props\<rparr>), pc)
         | None \<Rightarrow>
             (Some (config\<lparr>properties := Some (props @ [(propertyKey, empty_config)])\<rparr>),
              empty_config))"

text \<open>A write through the reference that \<^verbatim>\<open>getPropertyConfig\<close> returned.\<close>

definition storePropertyConfig :: "prototype \<Rightarrow> string \<Rightarrow> prop_config \<Rightarrow> prototype" where
  "storePropertyConfig proto propertyKey pc =
     (case proto of
        None \<Rightarrow> None
      | Some config \<Rightarrow>
          Some (config\<lparr>properties :=
            map_option (AList.update propertyKey pc) (properties config)\<rparr>))"

text \<open>
  The decorators. Each returns the error it throws, if any, and the prototype as it is when
  the decorator returns or throws. A decorator made by \<^verbatim>\<open>observe()\<close> is applied to one
  property, as the \<^verbatim>\<open>@observe()\<close> syntax does; applied to a second one it would reuse the
  attribute name that it computed for the first.
\<close>

definition observe ::
  "string option \<Rightarrow> prototype \<Rightarrow> property_key \<Rightarrow> js_error option \<times> prototype" where
  "observe attr proto propertyKey =
     (case propertyKey of
        SymbolKey y \<Rightarrow> (Some TypeError, proto)
      | StringKey k \<Rightarrow>
          (let (proto1, pc) = getPropertyConfig proto k;
               a = (case attr of None \<Rightarrow> toKebabCase k
                    | Some x \<Rightarrow> if x = [] then toKebabCase k else x);
               pc1 = pc\<lparr>attribute := Some a\<rparr>;
               pc2 = (if converter pc1 = None then pc1\<lparr>converter := Some JSON\<rparr> else pc1)
           in (None, storePropertyConfig proto1 k pc2)))"

definition toggleAttr :: "prototype \<Rightarrow> property_key \<Rightarrow> js_error option \<times> prototype" where
  "toggleAttr proto propertyKey =
     (case propertyKey of
        SymbolKey y \<Rightarrow> (Some TypeError, proto)
      | StringKey k \<Rightarrow>
          (let (proto1, pc) = getPropertyConfig proto k
           in (None, storePropertyConfig proto1 k (pc\<lparr>converter := Some Boolean\<rparr>))))"

definition withConverter ::
  "converter \<Rightarrow> prototype \<Rightarrow> property_key \<Rightarrow> js_error option \<times> prototype" where
  "withConverter c proto propertyKey =
     (case propertyKey of
        SymbolKey y \<Rightarrow> (Some TypeError, proto)
      | StringKey k \<Rightarrow>
          (let (proto1, pc) = getPropertyConfig proto k
           in (None, storePropertyConfig proto1 k (pc\<lparr>converter := Some c\<rparr>))))"

text \<open>The decorator \<^verbatim>\<open>notify(eventName?)\<close> of decorators.ts.\<close>

definition notify_decorator ::
  "string option \<Rightarrow> prototype \<Rightarrow> property_key \<Rightarrow> js_error option \<times> prototype" where
  "notify_decorator eventName proto propertyKey =
     (case propertyKey of
        SymbolKey y \<Rightarrow> (Some TypeError, proto)
      | StringKey k \<Rightarrow>
          (let (proto1, pc) = getPropertyConfig proto k;
               n = (case eventName of None \<Rightarrow> toKebabCase k @ ''-changed''
                    | Some x \<Rightarrow> if x = [] then toKebabCase k @ ''-changed'' else x)
           in (None, storePropertyConfig proto1 k (pc\<lparr>notify := Some n\<rparr>))))"

text \<open>The decorator \<^verbatim>\<open>reflect()\<close> of decorators.ts.\<close>

definition reflect_decorator :: "prototype \<Rightarrow> property_key \<Rightarrow> js_error option \<times> prototype" where
  "reflect_decorator proto propertyKey =
     (case propertyKey of
        SymbolKey y \<Rightarrow> (Some TypeError, proto)
      | StringKey k \<Rightarrow>
          (let (proto1, pc) = getPropertyConfig proto k
           in (None, storePropertyConfig proto1 k (pc\<lparr>reflect := Some True\<rparr>))))"

section \<open>The attribute codec (utils.ts: deserialize, serialize)\<close>

text \<open>
  The built-ins of the host that the codec calls, taken as they are: \<^verbatim>\<open>JSON.parse\<close>,
  \<^verbatim>\<open>JSON.stringify\<close>, \<^verbatim>\<open>new URL\<close> and the static \<^verbatim>\<open>parse\<close> of a custom converter.
\<close>

record host =
  json_parse :: "string \<Rightarrow> js_error + jsval"
  json_stringify :: "jsval \<Rightarrow> js_error + jsval"
  url_new :: "string \<Rightarrow> js_error + jsval"
  custom_parse :: "nat \<Rightarrow> string \<Rightarrow> js_error + jsval"

text \<open>
  The test of the default branch of \<^verbatim>\<open>deserialize\<close>: one of the three literals, a first
  character among \<^verbatim>\<open>[ { "\<close>, or a digit anywhere (\<^verbatim>\<open>/\d+/.test(value)\<close>).
\<close>

definition looks_like_json :: "string \<Rightarrow> bool" where
  "looks_like_json v =
     (v \<in> set [''null'', ''false'', ''true'']
      \<or> (case v of [] \<Rightarrow> False | c # cs \<Rightarrow> c \<in> set [CHR ''['', CHR ''{'', CHR 0x22])
      \<or> (\<exists>c \<in> set v. is_digit c))"

definition deserialize :: "host \<Rightarrow> string \<Rightarrow> prop_config \<Rightarrow> js_error + jsval" where
  "deserialize h v pc =
     (case converter pc of
        Some Boolean \<Rightarrow> Inr (JBool (v \<noteq> ''null''))
      | Some URL \<Rightarrow> url_new h v
      | Some (Custom c) \<Rightarrow> custom_parse h c v
      | _ \<Rightarrow> if looks_like_json v then json_parse h v else Inr (JStr v))"

definition serialize :: "host \<Rightarrow> jsval \<Rightarrow> prop_config \<Rightarrow> js_error + jsval" where
  "serialize h v pc =
     (if converter pc = Some JSON then json_stringify h v
      else if converter pc = Some URL then href v
      else if falsy v then Inr (JStr (template_string v))
      else case toString_call v of
             Some (Inr s) \<Rightarrow> Inr (JStr s)
           | Some (Inl e) \<Rightarrow> Inl e
           | None \<Rightarrow> Inl EvalError)"


section \<open>The component (rx-component.ts: RxWC)\<close>

text \<open>
  An observable is known by its identity. Three kinds are told apart: the stream that the
  constructor builds and adds to \<^verbatim>\<open>'@streams'\<close> (change feed, throttle, renderer); a stream
  that client code derives from \<^verbatim>\<open>propertyChanged$\<close>; and a client stream of its own
  source, \<^verbatim>\<open>ClientStream i k c\<close>, which hands \<^verbatim>\<open>k\<close> values to a new subscriber at once,
  completes then if \<^verbatim>\<open>c\<close>, and otherwise goes on with what its source emits later. The
  tests' \<^verbatim>\<open>of(null).pipe(tap(...))\<close> is \<^verbatim>\<open>ClientStream i 1 True\<close>, their
  \<^verbatim>\<open>sub.pipe(tap(...))\<close> on a \<^verbatim>\<open>Subject\<close> is \<^verbatim>\<open>ClientStream i 0 False\<close>. A stream
  derived from one of the lifecycle subjects is of this kind too; a run says when its
  source emits.
\<close>

datatype stream = RenderStream | FeedStream nat | ClientStream nat nat bool

fun consumes_feed :: "stream \<Rightarrow> bool" where
  "consumes_feed (ClientStream i k c) = False"
| "consumes_feed st = True"

type_synonym handle = nat

datatype effect = Notify | Reflect

datatype signal = Connected | Disconnected | AttributeChanged string string string

text \<open>
  What the instance does to the outside, in the order in which it happens: a property setter
  runs \<^verbatim>\<open>trigger.next\<close>; an effect handler is called; a subscription ends with the error
  that a handler threw; the change feed delivers a pair to a subscription; the renderer is
  called (with the values of the properties that \<^verbatim>\<open>this.template()\<close> sees at that moment);
  the pipeline of a client stream runs once, for one value, in one subscription; a lifecycle
  subject emits.
\<close>

datatype event =
    PropertySet string jsval
  | EffectCall effect string jsval
  | StreamError handle js_error
  | ChangeEvent handle string jsval
  | RenderCall "(string \<times> jsval) list"
  | ClientRun handle stream
  | Signal signal

text \<open>
  The state that one subscription of a stream holds in its operators: the last key of each
  property's \<^verbatim>\<open>distinctUntilChanged\<close> (absent before the first value), of
  \<^verbatim>\<open>throttleTime\<close> whether an interval is running and the value kept for its end, and
  whether the subscription has ended by itself, the stream having completed or an error
  having gone through it.
\<close>

record pipe =
  dedup_key :: "(string \<times> jsval) list"
  throttled :: bool
  trailing :: "(string \<times> jsval) option"
  closed :: bool

definition fresh_pipe :: pipe where
  "fresh_pipe = \<lparr>dedup_key = [], throttled = False, trailing = None, closed = False\<rparr>"

text \<open>
  An instance. \<^verbatim>\<open>cells\<close> are the triggers, one \<^verbatim>\<open>BehaviorSubject\<close> per observed property
  in the order of \<^verbatim>\<open>Object.keys(props)\<close>, each with its current value; \<^verbatim>\<open>streams\<close> is the
  set \<^verbatim>\<open>'@streams'\<close> and \<^verbatim>\<open>subscriptions\<close> the map \<^verbatim>\<open>'@subscriptions'\<close>, both in insertion
  order. To these the model adds what the rxjs objects hold: \<^verbatim>\<open>opened\<close>, every subscription
  that \<^verbatim>\<open>subscribe()\<close> has returned and that nobody has unsubscribed, with its handle, its
  stream and the state of its operators, in the order of subscription (one that has ended by
  itself stays in the list, closed); the next handle to hand out; and the trace of what the
  instance has done.
\<close>

record rxwc =
  cells :: "(string \<times> jsval) list"
  isAttached :: bool
  streams :: "stream list"
  subscriptions :: "(stream \<times> handle) list"
  opened :: "(handle \<times> stream \<times> pipe) list"
  next_handle :: handle
  trace :: "event list"

text \<open>\<^verbatim>\<open>properties: props = {}\<close> in the constructor.\<close>

definition props_of :: "component_config \<Rightarrow> (string \<times> prop_config) list" where
  "props_of cfg = (case properties cfg of None \<Rightarrow> [] | Some ps \<Rightarrow> ps)"

text \<open>The registry \<^verbatim>\<open>Object.entries(propertyEffects)\<close>, in the order of the module's exports.\<close>

definition propertyEffects :: "effect list" where
  "propertyEffects = [Notify, Reflect]"

text \<open>\<^verbatim>\<open>effect in propertyConfig\<close>.\<close>

fun effect_in :: "prop_config \<Rightarrow> effect \<Rightarrow> bool" where
  "effect_in pc Notify = (notify pc \<noteq> None)"
| "effect_in pc Reflect = (reflect pc \<noteq> None)"

text \<open>
  The handlers of property-effects.ts, as far as the engine goes: \<^verbatim>\<open>notify\<close> hands an event
  to the element and returns; \<^verbatim>\<open>reflect\<close> evaluates \<^verbatim>\<open>serialize(propertyValue,
  propertyConfig)\<close> for the argument of \<^verbatim>\<open>setAttribute\<close>, and throws what \<^verbatim>\<open>serialize\<close>
  throws. What the element does with the event and the attribute is the host's: the model
  takes an element whose \<^verbatim>\<open>dispatchEvent\<close> and \<^verbatim>\<open>setAttribute\<close> return without calling
  back into the instance.
\<close>

fun call_effect :: "host \<Rightarrow> prop_config \<Rightarrow> effect \<Rightarrow> jsval \<Rightarrow> js_error option" where
  "call_effect hst pc Notify v = None"
| "call_effect hst pc Reflect v = (case serialize hst v pc of Inl e \<Rightarrow> Some e | Inr a \<Rightarrow> None)"

text \<open>The \<^verbatim>\<open>forEach\<close> over the handlers: the handlers called, and the error that ended it.\<close>

fun run_handlers ::
  "host \<Rightarrow> prop_config \<Rightarrow> jsval \<Rightarrow> effect list \<Rightarrow> effect list \<times> js_error option" where
  "run_handlers hst pc v [] = ([], None)"
| "run_handlers hst pc v (e # es) =
     (case call_effect hst pc e v of
        Some err \<Rightarrow> ([e], Some err)
      | None \<Rightarrow> (let (called, r) = run_handlers hst pc v es in (e # called, r)))"

text \<open>The first \<^verbatim>\<open>tap\<close> of a property's stream.\<close>

definition run_effects :: "host \<Rightarrow> prop_config \<Rightarrow> jsval \<Rightarrow> effect list \<times> js_error option" where
  "run_effects hst pc v = run_handlers hst pc v (filter (effect_in pc) propertyEffects)"

definition effects_ok :: "host \<Rightarrow> prop_config \<Rightarrow> jsval \<Rightarrow> bool" where
  "effects_ok hst pc v = (snd (run_effects hst pc v) = None)"

text \<open>The calls of handlers that one value of a property makes in one subscription.\<close>

definition effect_calls :: "host \<Rightarrow> prop_config \<Rightarrow> string \<Rightarrow> jsval \<Rightarrow> event list" where
  "effect_calls hst pc propertyName v =
     map (\<lambda>e. EffectCall e propertyName v) (fst (run_effects hst pc v))"

text \<open>
  Modelled from the spec: the operator \<^verbatim>\<open>distinctUntilChanged()\<close> of the rxjs library, which
  is not part of the sources; "consecutive equal values collapse to one emission", with
  \<^verbatim>\<open>===\<close> as the equality. This is the test it makes on a value.
\<close>

definition distinct_pass :: "pipe \<Rightarrow> string \<Rightarrow> jsval \<Rightarrow> bool" where
  "distinct_pass pi propertyName v =
     (case map_of (dedup_key pi) propertyName of
        None \<Rightarrow> True
      | Some k \<Rightarrow> \<not> strict_eq k v)"

text \<open>
  Modelled from the spec: the operator \<^verbatim>\<open>throttleTime(0, scheduler, {leading: true,
  trailing: true})\<close> of the rxjs library, followed by the \<^verbatim>\<open>tap\<close> that renders; "the first
  event in a quiet period fires immediately, any events arriving during the current
  scheduling interval are coalesced". This is the arrival of a value. The renderer and
  \<^verbatim>\<open>template()\<close> are the client's; the model follows the runs in which they return.
\<close>

definition throttle_next ::
  "(string \<times> jsval) list \<Rightarrow> (string \<times> jsval) \<Rightarrow> pipe \<Rightarrow> pipe \<times> event list" where
  "throttle_next cs ev pi =
     (if throttled pi then (pi\<lparr>trailing := Some ev\<rparr>, [])
      else (pi\<lparr>throttled := True\<rparr>, [RenderCall cs]))"

text \<open>
  Modelled from the spec: the end of the interval of \<^verbatim>\<open>throttleTime\<close>, when the scheduler
  runs the action; "if at least one event arrived during the interval a final render fires
  at the interval's end".
\<close>

definition throttle_end :: "(string \<times> jsval) list \<Rightarrow> pipe \<Rightarrow> pipe \<times> event list" where
  "throttle_end cs pi =
     (if throttled pi
      then (case trailing pi of
              None \<Rightarrow> (pi\<lparr>throttled := False\<rparr>, [])
            | Some ev \<Rightarrow> (pi\<lparr>throttled := False, trailing := None\<rparr>, [RenderCall cs]))
      else (pi, []))"

text \<open>
  A value of property \<^verbatim>\<open>propertyName\<close> enters the stream that subscription \<^verbatim>\<open>h\<close> of
  \<^verbatim>\<open>st\<close> holds: the effects, then \<^verbatim>\<open>distinctUntilChanged\<close>, then \<^verbatim>\<open>map\<close> to the pair,
  and for the constructor's stream the throttle and the renderer. \<^verbatim>\<open>cs\<close> are the values of
  the properties at that moment. An error thrown by a handler is caught by the \<^verbatim>\<open>tap\<close> and
  sent down the stream as its error: nothing else is delivered, and the subscription, which
  was made without an error handler, ends (the library reports the error to the host later).
  A subscription that has ended receives nothing.
\<close>

definition pipe_next ::
  "host \<Rightarrow> (string \<times> prop_config) list \<Rightarrow> stream \<Rightarrow> handle \<Rightarrow> (string \<times> jsval) list \<Rightarrow>
   string \<Rightarrow> jsval \<Rightarrow> pipe \<Rightarrow> pipe \<times> event list" where
  "pipe_next hst props st h cs propertyName v pi =
     (if consumes_feed st \<and> \<not> closed pi
      then
        (case map_of props propertyName of
           None \<Rightarrow> (pi, [])
         | Some pc \<Rightarrow>
            (let fx = effect_calls hst pc propertyName v in
             case snd (run_effects hst pc v) of
               Some err \<Rightarrow> (pi\<lparr>closed := True\<rparr>, fx @ [StreamError h err])
             | None \<Rightarrow>
                 if \<not> distinct_pass pi propertyName v then (pi, fx)
                 else
                   (let pi1 = pi\<lparr>dedup_key := AList.update propertyName v (dedup_key pi)\<rparr>;
                        ev = ChangeEvent h propertyName v
                    in if st = RenderStream
                       then (let (pi2, out) = throttle_next cs (propertyName, v) pi1
                             in (pi2, fx @ [ev] @ out))
                       else (pi1, fx @ [ev]))))
      else (pi, []))"

text \<open>
  The value gets through to the far side of \<^verbatim>\<open>distinctUntilChanged\<close>: the subscription is
  one of the change feed and has not ended, the property is observed, no handler throws,
  and the value differs from the last one that got through.
\<close>

definition passes ::
  "host \<Rightarrow> (string \<times> prop_config) list \<Rightarrow> stream \<Rightarrow> string \<Rightarrow> jsval \<Rightarrow> pipe \<Rightarrow> bool" where
  "passes hst props st propertyName v pi =
     (consumes_feed st \<and> \<not> closed pi
      \<and> (case map_of props propertyName of None \<Rightarrow> False | Some pc \<Rightarrow> effects_ok hst pc v)
      \<and> distinct_pass pi propertyName v)"

text \<open>
  The setter of an observed property, \<^verbatim>\<open>trigger.next(newValue)\<close>: the
  \<^verbatim>\<open>BehaviorSubject\<close> keeps the value and hands it to its observers, which are the
  subscriptions of the change feed in the order in which they subscribed. A name that is
  not observed is a plain property, outside the engine.
\<close>

definition set_property ::
  "host \<Rightarrow> (string \<times> prop_config) list \<Rightarrow> string \<Rightarrow> jsval \<Rightarrow> rxwc \<Rightarrow> rxwc" where
  "set_property hst props propertyName v s =
     (if propertyName \<notin> fst ` set (cells s) then s
      else
        (let cs = AList.update propertyName v (cells s);
             rs = map (\<lambda>(h, st, pi). (h, st, pipe_next hst props st h cs propertyName v pi))
                    (opened s)
         in s\<lparr>cells := cs,
              opened := map (\<lambda>(h, st, r). (h, st, fst r)) rs,
              trace := trace s @ [PropertySet propertyName v]
                         @ concat (map (\<lambda>(h, st, r). snd r) rs)\<rparr>))"

text \<open>
  A new subscriber of the change feed: \<^verbatim>\<open>merge\<close> subscribes the properties' streams in
  order, and each \<^verbatim>\<open>BehaviorSubject\<close> replays its current value at once; once the
  subscription has ended with an error, \<^verbatim>\<open>merge\<close> subscribes no further stream. The rxjs
  classes are not part of the sources; the replay is what tests/rx-component.test.ts observes,
  where \<^verbatim>\<open>connectedCallback\<close> alone brings the count of renders to 1, and to 3 on attaching
  again.
\<close>

fun replay ::
  "host \<Rightarrow> (string \<times> prop_config) list \<Rightarrow> stream \<Rightarrow> handle \<Rightarrow> (string \<times> jsval) list \<Rightarrow>
   (string \<times> jsval) list \<Rightarrow> pipe \<Rightarrow> pipe \<times> event list" where
  "replay hst props st h cs [] pi = (pi, [])"
| "replay hst props st h cs ((propertyName, v) # rest) pi =
     (let (pi1, out1) = pipe_next hst props st h cs propertyName v pi;
          (pi2, out2) = replay hst props st h cs rest pi1
      in (pi2, out1 @ out2))"

text \<open>
  What happens inside \<^verbatim>\<open>stream.subscribe()\<close>, and the state in which it leaves the new
  subscription. A client stream runs once for each value that it hands over at once. The
  change feed of a class without observed properties is \<^verbatim>\<open>merge()\<close> of nothing, which
  completes at once; the constructor's stream of such a class starts with
  \<^verbatim>\<open>startWith(null)\<close>, which the throttle lets through to the renderer, and completes then.
\<close>

definition subscribe_start ::
  "host \<Rightarrow> (string \<times> prop_config) list \<Rightarrow> stream \<Rightarrow> handle \<Rightarrow> (string \<times> jsval) list \<Rightarrow>
   pipe \<times> event list" where
  "subscribe_start hst props st h cs =
     (case st of
        ClientStream i k c \<Rightarrow> (fresh_pipe\<lparr>closed := c\<rparr>, replicate k (ClientRun h st))
      | FeedStream i \<Rightarrow>
          if props = [] then (fresh_pipe\<lparr>closed := True\<rparr>, [])
          else replay hst props st h cs cs fresh_pipe
      | RenderStream \<Rightarrow>
          if props = [] then (fresh_pipe\<lparr>throttled := True, closed := True\<rparr>, [RenderCall cs])
          else replay hst props st h cs cs fresh_pipe)"

text \<open>\<^verbatim>\<open>stream.subscribe()\<close>.\<close>

definition subscribe_stream ::
  "host \<Rightarrow> (string \<times> prop_config) list \<Rightarrow> stream \<Rightarrow> rxwc \<Rightarrow> handle \<times> rxwc" where
  "subscribe_stream hst props st s =
     (let h = next_handle s;
          r = subscribe_start hst props st h (cells s)
      in (h, s\<lparr>opened := opened s @ [(h, st, fst r)], next_handle := Suc h,
               trace := trace s @ snd r\<rparr>))"

text \<open>
  \<^verbatim>\<open>sub.unsubscribe()\<close>. The state of the operators goes with the subscription, and with it
  the action that the throttle scheduled: "detaching the instance immediately severs all
  active subscriptions, including any in-flight scheduled render that has not yet fired".
\<close>

definition unsubscribe_handle :: "handle \<Rightarrow> rxwc \<Rightarrow> rxwc" where
  "unsubscribe_handle h s = s\<lparr>opened := filter (\<lambda>(h', st, pi). h' \<noteq> h) (opened s)\<rparr>"

text \<open>\<^verbatim>\<open>this['@subscriptions'].set(stream, stream.subscribe())\<close>.\<close>

definition subscribe_and_store ::
  "host \<Rightarrow> (string \<times> prop_config) list \<Rightarrow> stream \<Rightarrow> rxwc \<Rightarrow> rxwc" where
  "subscribe_and_store hst props st s =
     (let (h, s1) = subscribe_stream hst props st s
      in s1\<lparr>subscriptions := AList.update st h (subscriptions s1)\<rparr>)"

text \<open>The instance as the constructor leaves it.\<close>

definition new_instance :: "(string \<times> prop_config) list \<Rightarrow> rxwc" where
  "new_instance props =
     \<lparr>cells = map (\<lambda>(k, pc). (k, JUndefined)) props,
      isAttached = False,
      streams = [RenderStream],
      subscriptions = [],
      opened = [],
      next_handle = 0,
      trace = []\<rparr>"

text \<open>
  The static getter \<^verbatim>\<open>observedAttributes\<close>: the keys of \<^verbatim>\<open>properties\<close>, in kebab case, in
  the order of \<^verbatim>\<open>Object.keys\<close>, which for names that are not written like an array index
  is the order of insertion.
\<close>

definition observedAttributes :: "component_config \<Rightarrow> string list" where
  "observedAttributes cfg = map toKebabCase (map fst (props_of cfg))"

text \<open>
  \<^verbatim>\<open>connectedCallback\<close>: it subscribes every registered stream, whether or not the map
  \<^verbatim>\<open>'@subscriptions'\<close> has an entry for it, and stores the new subscription.
\<close>

definition connectedCallback :: "host \<Rightarrow> (string \<times> prop_config) list \<Rightarrow> rxwc \<Rightarrow> rxwc" where
  "connectedCallback hst props s =
     (let s1 = s\<lparr>isAttached := True\<rparr>;
          s2 = fold (subscribe_and_store hst props) (streams s1) s1
      in s2\<lparr>trace := trace s2 @ [Signal Connected]\<rparr>)"

text \<open>\<^verbatim>\<open>disconnectedCallback\<close>: it unsubscribes what the map holds, and clears the map.\<close>

definition disconnectedCallback :: "rxwc \<Rightarrow> rxwc" where
  "disconnectedCallback s =
     (let s1 = s\<lparr>isAttached := False, trace := trace s @ [Signal Disconnected]\<rparr>;
          s2 = fold (\<lambda>(st, h). unsubscribe_handle h) (subscriptions s1) s1
      in s2\<lparr>subscriptions := []\<rparr>)"

text \<open>\<^verbatim>\<open>this['@streams'].add(stream)\<close> and \<^verbatim>\<open>this['@streams'].delete(stream)\<close>.\<close>

definition add_stream :: "stream \<Rightarrow> rxwc \<Rightarrow> rxwc" where
  "add_stream st s = (if st \<in> set (streams s) then s else s\<lparr>streams := streams s @ [st]\<rparr>)"

definition delete_stream :: "stream \<Rightarrow> rxwc \<Rightarrow> rxwc" where
  "delete_stream st s = s\<lparr>streams := removeAll st (streams s)\<rparr>"

text \<open>The method \<^verbatim>\<open>subscribe(...streams)\<close>.\<close>

definition subscribe ::
  "host \<Rightarrow> (string \<times> prop_config) list \<Rightarrow> stream list \<Rightarrow> rxwc \<Rightarrow> rxwc" where
  "subscribe hst props sts s =
     (let s1 = fold add_stream sts s
      in if \<not> isAttached s1 then s1
         else fold (\<lambda>st s'. if map_of (subscriptions s') st \<noteq> None then s'
                            else subscribe_and_store hst props st s') sts s1)"

text \<open>The method \<^verbatim>\<open>unsubscribe(...streams)\<close>.\<close>

definition unsubscribe_one :: "stream \<Rightarrow> rxwc \<Rightarrow> rxwc" where
  "unsubscribe_one st s =
     (case map_of (subscriptions s) st of
        None \<Rightarrow> s
      | Some h \<Rightarrow> (unsubscribe_handle h s)\<lparr>subscriptions := AList.delete st (subscriptions s)\<rparr>)"

definition unsubscribe :: "stream list \<Rightarrow> rxwc \<Rightarrow> rxwc" where
  "unsubscribe sts s = fold unsubscribe_one sts (fold delete_stream sts s)"

text \<open>
  \<^verbatim>\<open>attributeChangedCallback\<close>. It returns the error that it throws, if any, and the
  instance as it is then. Reading \<^verbatim>\<open>converter\<close> out of \<^verbatim>\<open>properties[propertyName]\<close>
  throws a \<^verbatim>\<open>TypeError\<close> when there is no such entry (the names of the members of
  \<^verbatim>\<open>Object.prototype\<close>, which the lookup would find, are left aside).
\<close>

definition attributeChangedCallback ::
  "host \<Rightarrow> (string \<times> prop_config) list \<Rightarrow> string \<Rightarrow> string \<Rightarrow> string \<Rightarrow> rxwc \<Rightarrow>
   js_error option \<times> rxwc" where
  "attributeChangedCallback hst props attr oldValue newValue s =
     (if oldValue = newValue then (None, s)
      else
        (let s1 = s\<lparr>trace := trace s @ [Signal (AttributeChanged attr oldValue newValue)]\<rparr>;
             propertyName = toCamelCase attr
         in case map_of props propertyName of
              None \<Rightarrow> (Some TypeError, s1)
            | Some pc \<Rightarrow>
                (case deserialize hst newValue pc of
                   Inl e \<Rightarrow> (Some e, s1)
                 | Inr v \<Rightarrow> (None, set_property hst props propertyName v s1))))"

text \<open>
  Modelled from the spec: the scheduler handed to \<^verbatim>\<open>throttleTime\<close>, which is not part of the
  sources, runs what is due: every running interval of a throttle ends. Writes with no such
  step between them fall into one interval.
\<close>

definition tick :: "rxwc \<Rightarrow> rxwc" where
  "tick s =
     (let rs = map (\<lambda>(h, st, pi). (h, st,
                 if st = RenderStream \<and> \<not> closed pi then throttle_end (cells s) pi
                 else (pi, []))) (opened s)
      in s\<lparr>opened := map (\<lambda>(h, st, r). (h, st, fst r)) rs,
           trace := trace s @ concat (map (\<lambda>(h, st, r). snd r) rs)\<rparr>)"

text \<open>
  The source of a client stream emits a value: the stream's pipeline runs once in each of
  its subscriptions that has not ended.
\<close>

definition source_emit :: "stream \<Rightarrow> rxwc \<Rightarrow> rxwc" where
  "source_emit st s =
     s\<lparr>trace := trace s @ map (\<lambda>(h, st', pi). ClientRun h st')
        (filter (\<lambda>(h, st', pi). st' = st \<and> \<not> consumes_feed st' \<and> \<not> closed pi) (opened s))\<rparr>"

text \<open>What the host and the client code do to an instance, and a run of such steps.\<close>

datatype action =
    OnAttach
  | OnDetach
  | Register "stream list"
  | Unregister "stream list"
  | SetProperty string jsval
  | AttributeChange string string string
  | Tick
  | SourceEmit stream

fun step :: "host \<Rightarrow> (string \<times> prop_config) list \<Rightarrow> action \<Rightarrow> rxwc \<Rightarrow> rxwc" where
  "step hst props OnAttach s = connectedCallback hst props s"
| "step hst props OnDetach s = disconnectedCallback s"
| "step hst props (Register sts) s = subscribe hst props sts s"
| "step hst props (Unregister sts) s = unsubscribe sts s"
| "step hst props (SetProperty p v) s = set_property hst props p v s"
| "step hst props (AttributeChange a ov nv) s = snd (attributeChangedCallback hst props a ov nv s)"
| "step hst props Tick s = tick s"
| "step hst props (SourceEmit st) s = source_emit st s"

definition run :: "host \<Rightarrow> (string \<times> prop_config) list \<Rightarrow> action list \<Rightarrow> rxwc \<Rightarrow> rxwc" where
  "run hst props acts s = fold (step hst props) acts s"


section \<open>Reading a trace\<close>

fun is_render :: "event \<Rightarrow> bool" where
  "is_render (RenderCall cs) = True"
| "is_render e = False"

fun is_effect :: "event \<Rightarrow> bool" where
  "is_effect (EffectCall e p v) = True"
| "is_effect e = False"

fun is_change :: "event \<Rightarrow> bool" where
  "is_change (ChangeEvent h p v) = True"
| "is_change e = False"

fun is_signal :: "event \<Rightarrow> bool" where
  "is_signal (Signal g) = True"
| "is_signal e = False"

fun is_set :: "event \<Rightarrow> bool" where
  "is_set (PropertySet p v) = True"
| "is_set e = False"

fun is_error :: "event \<Rightarrow> bool" where
  "is_error (StreamError h e) = True"
| "is_error e = False"

fun is_run :: "event \<Rightarrow> bool" where
  "is_run (ClientRun h st) = True"
| "is_run e = False"

text \<open>What happened between two states of one run.\<close>

definition emitted :: "rxwc \<Rightarrow> rxwc \<Rightarrow> event list" where
  "emitted s s' = drop (length (trace s)) (trace s')"

text \<open>The values that the change feed delivered to subscription \<^verbatim>\<open>h\<close> for one property.\<close>

fun changes_of :: "handle \<Rightarrow> string \<Rightarrow> event list \<Rightarrow> jsval list" where
  "changes_of h p [] = []"
| "changes_of h p (ChangeEvent h' p' v # es) =
     (if h' = h \<and> p' = p then v # changes_of h p es else changes_of h p es)"
| "changes_of h p (e # es) = changes_of h p es"

text \<open>
  The maximal runs of consecutive equal values of a sequence, in the words of the
  specification: a value joins the run of its successor when the two are equal (\<^verbatim>\<open>===\<close>).
\<close>

fun maximal_runs :: "jsval list \<Rightarrow> jsval list list" where
  "maximal_runs [] = []"
| "maximal_runs (x # xs) =
     (case maximal_runs xs of
        [] \<Rightarrow> [[x]]
      | r # rs \<Rightarrow> if strict_eq x (hd r) then (x # r) # rs else [x] # r # rs)"

text \<open>The subscriptions not unsubscribed, as pairs of a stream and its handle.\<close>

definition opened_subs :: "rxwc \<Rightarrow> (stream \<times> handle) list" where
  "opened_subs s = map (\<lambda>(h, st, pi). (st, h)) (opened s)"

text \<open>
  The subscriptions of one stream that nobody has unsubscribed; those of them that are live;
  and those that have ended by themselves.
\<close>

definition entries_of :: "stream \<Rightarrow> rxwc \<Rightarrow> (handle \<times> stream \<times> pipe) list" where
  "entries_of st s = filter (\<lambda>(h, st', pi). st' = st) (opened s)"




text \<open>
  How a subscription ends by itself without an error: that of a client stream according to
  the stream, and any subscription of the change feed of a class without properties.
\<close>

definition end_known :: "(string \<times> prop_config) list \<Rightarrow> stream \<Rightarrow> pipe \<Rightarrow> bool" where
  "end_known props st pi =
     (case st of ClientStream i k c \<Rightarrow> closed pi = c | _ \<Rightarrow> props = [] \<longrightarrow> closed pi)"

definition ends_known :: "(string \<times> prop_config) list \<Rightarrow> rxwc \<Rightarrow> bool" where
  "ends_known props s = list_all (\<lambda>(h, st, pi). end_known props st pi) (opened s)"

text \<open>No subscription of the change feed has ended by itself.\<close>

definition feed_open :: "rxwc \<Rightarrow> bool" where
  "feed_open s = list_all (\<lambda>(h, st, pi). \<not> (consumes_feed st \<and> closed pi)) (opened s)"

text \<open>No handler throws on the current values of the properties, as a new subscriber gets them.\<close>

definition replay_ok :: "host \<Rightarrow> (string \<times> prop_config) list \<Rightarrow> (string \<times> jsval) list \<Rightarrow> bool" where
  "replay_ok hst props cs =
     list_all (\<lambda>(q, w). case map_of props q of None \<Rightarrow> True | Some pc \<Rightarrow> effects_ok hst pc w) cs"

text \<open>
  The host's discipline: \<^verbatim>\<open>connectedCallback\<close> comes only to an element that is not
  attached. The first argument says whether the instance is attached before the run.
\<close>

fun attach_alternates :: "bool \<Rightarrow> action list \<Rightarrow> bool" where
  "attach_alternates a [] = True"
| "attach_alternates a (OnAttach # acts) = (\<not> a \<and> attach_alternates True acts)"
| "attach_alternates a (OnDetach # acts) = attach_alternates False acts"
| "attach_alternates a (x # acts) = attach_alternates a acts"

text \<open>
  The constructor's stream is private to the instance: client code registers and
  unregisters its own streams only.
\<close>

fun client_streams :: "action list \<Rightarrow> bool" where
  "client_streams [] = True"
| "client_streams (Register sts # acts) = (RenderStream \<notin> set sts \<and> client_streams acts)"
| "client_streams (Unregister sts # acts) = (RenderStream \<notin> set sts \<and> client_streams acts)"
| "client_streams (x # acts) = client_streams acts"

fun no_attach :: "action list \<Rightarrow> bool" where
  "no_attach [] = True"
| "no_attach (OnAttach # acts) = False"
| "no_attach (x # acts) = no_attach acts"

text \<open>A host whose built-ins reject every input, for the runs that call none of them.\<close>

definition rejecting_host :: host where
  "rejecting_host =
     \<lparr>json_parse = (\<lambda>s. Inl SyntaxError),
      json_stringify = (\<lambda>v. Inl TypeError),
      url_new = (\<lambda>s. Inl TypeError),
      custom_parse = (\<lambda>c s. Inl ParseError)\<rparr>"

text \<open>
  The bookkeeping invariant of an instance of a class with properties \<^verbatim>\<open>props\<close>: one cell
  per property, sets without repetition, handles handed out once, and the map
  \<^verbatim>\<open>'@subscriptions'\<close> holding exactly the subscriptions not unsubscribed, which are those of
  all registered streams while attached and none otherwise.
\<close>

definition wf_core :: "(string \<times> prop_config) list \<Rightarrow> rxwc \<Rightarrow> bool" where
  "wf_core props s =
     (map fst (cells s) = map fst props
      \<and> distinct (streams s)
      \<and> distinct (map fst (subscriptions s))
      \<and> distinct (map fst (opened s))
      \<and> (\<forall>h \<in> set (map fst (opened s)). h < next_handle s)
      \<and> set (opened_subs s) = set (subscriptions s))"

definition wf_instance :: "(string \<times> prop_config) list \<Rightarrow> rxwc \<Rightarrow> bool" where
  "wf_instance props s =
     (wf_core props s
      \<and> (if isAttached s then fst ` set (subscriptions s) = set (streams s)
         else subscriptions s = []))"


section \<open>Properties of the name translation\<close>

lemma toLowerCase_is_lower: "is_upper b \<Longrightarrow> is_lower (toLowerCase b)"
proof -
  assume u: "is_upper b"
  then have "((of_char b :: nat) + 32) mod 256 = of_char b + 32"
    by (simp add: is_upper_def)
  with u show ?thesis
    by (simp add: toLowerCase_def is_lower_def is_upper_def)
qed

lemma toUpperCase_toLowerCase: "is_upper b \<Longrightarrow> toUpperCase (toLowerCase b) = b"
proof -
  assume u: "is_upper b"
  then have m: "((of_char b :: nat) + 32) mod 256 = of_char b + 32"
    by (simp add: is_upper_def)
  have "is_lower (toLowerCase b)"
    using u by (rule toLowerCase_is_lower)
  then show ?thesis
    using u m by (simp add: toUpperCase_def toLowerCase_def)
qed

lemma toCamelCase_Cons:
  "s \<noteq> CHR ''-'' \<Longrightarrow> s \<noteq> CHR ''_'' \<Longrightarrow> toCamelCase (s # xs) = s # toCamelCase xs"
  by (cases xs) simp_all

lemma is_lower_not_underscore: "is_lower c \<Longrightarrow> c \<noteq> CHR ''_''"
  by (auto simp: is_lower_def)

lemma replace_snake_id: "CHR ''_'' \<notin> set xs \<Longrightarrow> replace_snake xs = xs"
  by (induction xs rule: replace_snake.induct) auto

lemma replace_camel_hump_no_underscore:
  "CHR ''_'' \<notin> set xs \<Longrightarrow> CHR ''_'' \<notin> set (replace_camel_hump xs)"
proof (induction xs rule: replace_camel_hump.induct)
  case (1 a b rest)
  then show ?case
    using is_lower_not_underscore [OF toLowerCase_is_lower, of b] by auto
qed simp_all

lemma toCamelCase_replace_camel_hump:
  "CHR ''-'' \<notin> set xs \<Longrightarrow> CHR ''_'' \<notin> set xs \<Longrightarrow> toCamelCase (replace_camel_hump xs) = xs"
proof (induction xs rule: replace_camel_hump.induct)
  case (1 a b rest)
  then show ?case
    by (auto simp: toCamelCase_Cons toUpperCase_toLowerCase toLowerCase_is_lower is_word_def)
qed simp_all

lemma toCamelCase_toKebabCase:
  "CHR ''-'' \<notin> set name \<Longrightarrow> CHR ''_'' \<notin> set name \<Longrightarrow> toCamelCase (toKebabCase name) = name"
  by (simp add: toKebabCase_def replace_snake_id replace_camel_hump_no_underscore
      toCamelCase_replace_camel_hump)

lemma alnum_not_separator:
  "is_lower c \<or> is_upper c \<or> is_digit c \<Longrightarrow> c \<noteq> CHR ''-'' \<and> c \<noteq> CHR ''_''"
  by (auto simp: is_lower_def is_upper_def is_digit_def)

text \<open>
  Claim C10. For a property name made of letters and digits, \<^verbatim>\<open>toCamelCase\<close> undoes
  \<^verbatim>\<open>toKebabCase\<close>. When the name is a declared property, its kebab-cased form is among
  \<^verbatim>\<open>observedAttributes\<close>, and a change of that attribute is decoded with the configuration
  of that property and written to that property.
\<close>

theorem kebab_camel_round_trip:
  assumes "\<forall>c \<in> set name. is_lower c \<or> is_upper c \<or> is_digit c"
  shows "toCamelCase (toKebabCase name) = name
    \<and> (map_of (props_of cfg) name = Some pc \<longrightarrow>
         toKebabCase name \<in> set (observedAttributes cfg)
         \<and> (oldValue \<noteq> newValue \<longrightarrow>
              attributeChangedCallback hst (props_of cfg) (toKebabCase name) oldValue newValue s =
                (case deserialize hst newValue pc of
                   Inl e \<Rightarrow> (Some e,
                     s\<lparr>trace := trace s @
                        [Signal (AttributeChanged (toKebabCase name) oldValue newValue)]\<rparr>)
                 | Inr v \<Rightarrow> (None, set_property hst (props_of cfg) name v
                     (s\<lparr>trace := trace s @
                        [Signal (AttributeChanged (toKebabCase name) oldValue newValue)]\<rparr>)))))"
proof -
  have sep: "CHR ''-'' \<notin> set name" "CHR ''_'' \<notin> set name"
    using assms alnum_not_separator by blast+
  then have rt: "toCamelCase (toKebabCase name) = name"
    by (rule toCamelCase_toKebabCase)
  have obs: "toKebabCase name \<in> set (observedAttributes cfg)"
    if "map_of (props_of cfg) name = Some pc"
    using map_of_SomeD [OF that] by (force simp: observedAttributes_def)
  show ?thesis
    using rt obs by (simp add: attributeChangedCallback_def Let_def)
qed

theorem kebab_camel_round_trip_witness:
  "toCamelCase (toKebabCase ''myProp1'') = ''myProp1''
   \<and> toKebabCase ''myProp1'' = ''my-prop1''
   \<and> ''my-prop1'' \<in> set (observedAttributes \<lparr>properties = Some [(''myProp1'', empty_config)]\<rparr>)
   \<and> attributeChangedCallback rejecting_host [(''myProp1'', empty_config)] ''my-prop1'' ''a'' ''b''
        (new_instance [(''myProp1'', empty_config)])
      = (None, set_property rejecting_host [(''myProp1'', empty_config)] ''myProp1'' (JStr ''b'')
           ((new_instance [(''myProp1'', empty_config)])
              \<lparr>trace := [Signal (AttributeChanged ''my-prop1'' ''a'' ''b'')]\<rparr>))"
proof -
  have a: "\<forall>c \<in> set ''myProp1''. is_lower c \<or> is_upper c \<or> is_digit c"
    by code_simp
  have k: "toKebabCase ''myProp1'' = ''my-prop1''"
    by code_simp
  have m: "map_of (props_of \<lparr>properties = Some [(''myProp1'', empty_config)]\<rparr>) ''myProp1''
             = Some empty_config"
    by (simp add: props_of_def)
  have d: "deserialize rejecting_host ''b'' empty_config = Inr (JStr ''b'')"
    by code_simp
  have n: "''a'' \<noteq> ''b''" by simp
  show ?thesis
    using kebab_camel_round_trip [OF a, of "\<lparr>properties = Some [(''myProp1'', empty_config)]\<rparr>"
        empty_config "''a''" "''b''" rejecting_host "new_instance [(''myProp1'', empty_config)]"]
      k m d n
    by (simp add: props_of_def new_instance_def)
qed

section \<open>Properties of the decorators\<close>

text \<open>
  Claim C9. Each of the five decorators, applied to a symbol key, throws a \<^verbatim>\<open>TypeError\<close>
  (the specification's \<^verbatim>\<open>ConfigError\<close>) and leaves the prototype as it was: no configuration is
  created and no name is made up for the key.
\<close>

theorem decorators_reject_symbols:
  "observe attr proto (SymbolKey y) = (Some TypeError, proto)
   \<and> toggleAttr proto (SymbolKey y) = (Some TypeError, proto)
   \<and> withConverter c proto (SymbolKey y) = (Some TypeError, proto)
   \<and> notify_decorator eventName proto (SymbolKey y) = (Some TypeError, proto)
   \<and> reflect_decorator proto (SymbolKey y) = (Some TypeError, proto)"
  by (simp add: observe_def toggleAttr_def withConverter_def notify_decorator_def
      reflect_decorator_def)

theorem decorators_reject_symbols_witness:
  "observe None None (SymbolKey 0) = (Some TypeError, None)
   \<and> toggleAttr None (SymbolKey 0) = (Some TypeError, None)
   \<and> withConverter JSON None (SymbolKey 0) = (Some TypeError, None)
   \<and> notify_decorator None None (SymbolKey 0) = (Some TypeError, None)
   \<and> reflect_decorator None (SymbolKey 0) = (Some TypeError, None)"
  using decorators_reject_symbols [of None None 0 JSON None]
  by simp

section \<open>Properties of the codec\<close>

text \<open>
  Claim C7, amended. \<^verbatim>\<open>serialize\<close> with the \<^verbatim>\<open>JSON\<close> converter is \<^verbatim>\<open>JSON.stringify\<close>; with
  the \<^verbatim>\<open>URL\<close> converter it is the read of \<^verbatim>\<open>href\<close>; with any other converter or none, a
  falsy value gives its string form, and a value that is not falsy and whose \<^verbatim>\<open>toString\<close>
  is missing or falsy makes it throw the \<^verbatim>\<open>EvalError\<close> (the specification's
  \<^verbatim>\<open>SerializationError\<close>).
\<close>

theorem serialize_by_converter:
  "(converter pc = Some JSON \<longrightarrow> serialize hst v pc = json_stringify hst v)
   \<and> (converter pc = Some URL \<longrightarrow> serialize hst v pc = href v)
   \<and> (converter pc \<noteq> Some JSON \<and> converter pc \<noteq> Some URL \<and> falsy v \<longrightarrow>
        serialize hst v pc = Inr (JStr (template_string v)))
   \<and> (converter pc \<noteq> Some JSON \<and> converter pc \<noteq> Some URL \<and> \<not> falsy v
        \<and> toString_call v = None \<longrightarrow> serialize hst v pc = Inl EvalError)"
  by (simp add: serialize_def)

lemma template_string_zero: "template_string (JNum 0) = ''0''"
  by code_simp

theorem serialize_by_converter_witness:
  "serialize rejecting_host (JNum 1) (empty_config\<lparr>converter := Some JSON\<rparr>)
     = json_stringify rejecting_host (JNum 1)
   \<and> serialize rejecting_host (JUrl 0 ''http://localhost/p'') (empty_config\<lparr>converter := Some URL\<rparr>)
     = Inr (JStr ''http://localhost/p'')
   \<and> serialize rejecting_host JNull empty_config = Inr (JStr ''null'')
   \<and> serialize rejecting_host (JNum 0) empty_config = Inr (JStr ''0'')
   \<and> serialize rejecting_host (JObj 0 ToStringFalsy) empty_config = Inl EvalError"
  using serialize_by_converter [of "empty_config\<lparr>converter := Some JSON\<rparr>" rejecting_host "JNum 1"]
    serialize_by_converter [of "empty_config\<lparr>converter := Some URL\<rparr>" rejecting_host
      "JUrl 0 ''http://localhost/p''"]
    serialize_by_converter [of empty_config rejecting_host JNull]
    serialize_by_converter [of empty_config rejecting_host "JNum 0"]
    serialize_by_converter [of empty_config rejecting_host "JObj 0 ToStringFalsy"]
  by (simp add: empty_config_def template_string_zero del: template_string.simps(4))

text \<open>
  Claim C7 as stated fails under the \<^verbatim>\<open>URL\<close> converter: the falsy value \<^verbatim>\<open>undefined\<close> does
  not give its string form but a \<^verbatim>\<open>TypeError\<close>, and an object without \<^verbatim>\<open>toString\<close>
  gives \<^verbatim>\<open>undefined\<close> and no error.
\<close>

theorem serialize_url_counterexample:
  "falsy JUndefined
   \<and> serialize rejecting_host JUndefined (empty_config\<lparr>converter := Some URL\<rparr>) = Inl TypeError
   \<and> \<not> falsy (JObj 0 ToStringFalsy)
   \<and> toString_call (JObj 0 ToStringFalsy) = None
   \<and> serialize rejecting_host (JObj 0 ToStringFalsy) (empty_config\<lparr>converter := Some URL\<rparr>)
       = Inr JUndefined"
  by (simp add: serialize_def empty_config_def)


section \<open>Bookkeeping\<close>

lemma emitted_append: "trace s' = trace s @ out \<Longrightarrow> emitted s s' = out"
  by (simp add: emitted_def)

lemma update_absent: "k \<notin> fst ` set al \<Longrightarrow> AList.update k v al = al @ [(k, v)]"
  by (induction al) auto

lemma update_present_keys: "k \<in> fst ` set al \<Longrightarrow> map fst (AList.update k v al) = map fst al"
  by (simp add: update_keys)

subsection \<open>What each operation leaves alone\<close>

lemma set_property_frame [simp]:
  "isAttached (set_property hst props p v s) = isAttached s"
  "streams (set_property hst props p v s) = streams s"
  "subscriptions (set_property hst props p v s) = subscriptions s"
  "next_handle (set_property hst props p v s) = next_handle s"
  "map fst (cells (set_property hst props p v s)) = map fst (cells s)"
  "map fst (opened (set_property hst props p v s)) = map fst (opened s)"
  "opened_subs (set_property hst props p v s) = opened_subs s"
  by (auto simp: set_property_def Let_def update_present_keys opened_subs_def split_beta)

lemma tick_frame [simp]:
  "isAttached (tick s) = isAttached s"
  "streams (tick s) = streams s"
  "subscriptions (tick s) = subscriptions s"
  "next_handle (tick s) = next_handle s"
  "cells (tick s) = cells s"
  "map fst (opened (tick s)) = map fst (opened s)"
  "opened_subs (tick s) = opened_subs s"
  by (auto simp: tick_def Let_def opened_subs_def split_beta)

lemma source_emit_frame [simp]:
  "isAttached (source_emit st s) = isAttached s"
  "streams (source_emit st s) = streams s"
  "subscriptions (source_emit st s) = subscriptions s"
  "next_handle (source_emit st s) = next_handle s"
  "cells (source_emit st s) = cells s"
  "opened (source_emit st s) = opened s"
  by (simp_all add: source_emit_def)

lemma subscribe_stream_frame [simp]:
  "isAttached (snd (subscribe_stream hst props st s)) = isAttached s"
  "streams (snd (subscribe_stream hst props st s)) = streams s"
  "subscriptions (snd (subscribe_stream hst props st s)) = subscriptions s"
  "next_handle (snd (subscribe_stream hst props st s)) = Suc (next_handle s)"
  "cells (snd (subscribe_stream hst props st s)) = cells s"
  "fst (subscribe_stream hst props st s) = next_handle s"
  "map fst (opened (snd (subscribe_stream hst props st s))) = map fst (opened s) @ [next_handle s]"
  "opened_subs (snd (subscribe_stream hst props st s)) = opened_subs s @ [(st, next_handle s)]"
  by (auto simp: subscribe_stream_def Let_def opened_subs_def split_beta)

lemma unsubscribe_handle_frame [simp]:
  "isAttached (unsubscribe_handle h s) = isAttached s"
  "streams (unsubscribe_handle h s) = streams s"
  "subscriptions (unsubscribe_handle h s) = subscriptions s"
  "next_handle (unsubscribe_handle h s) = next_handle s"
  "cells (unsubscribe_handle h s) = cells s"
  "trace (unsubscribe_handle h s) = trace s"
  "opened (unsubscribe_handle h s) = filter (\<lambda>x. fst x \<noteq> h) (opened s)"
  by (auto simp: unsubscribe_handle_def split_beta intro: filter_cong)

lemma subscribe_and_store_frame [simp]:
  "isAttached (subscribe_and_store hst props st s) = isAttached s"
  "streams (subscribe_and_store hst props st s) = streams s"
  "subscriptions (subscribe_and_store hst props st s) = AList.update st (next_handle s) (subscriptions s)"
  "next_handle (subscribe_and_store hst props st s) = Suc (next_handle s)"
  "cells (subscribe_and_store hst props st s) = cells s"
  "map fst (opened (subscribe_and_store hst props st s)) = map fst (opened s) @ [next_handle s]"
  "opened_subs (subscribe_and_store hst props st s) = opened_subs s @ [(st, next_handle s)]"
  by (auto simp: subscribe_and_store_def subscribe_stream_def Let_def opened_subs_def split_beta)


subsection \<open>The invariant is kept\<close>

lemma opened_subs_handles: "map snd (opened_subs s) = map fst (opened s)"
  by (simp add: opened_subs_def split_beta)

lemma opened_subs_stream_unique:
  assumes "distinct (map fst (opened s))" "(st, h) \<in> set (opened_subs s)" "(st', h) \<in> set (opened_subs s)"
  shows "st = st'"
proof -
  have "distinct (map fst (map prod.swap (opened_subs s)))"
    using assms(1) by (simp add: opened_subs_handles [symmetric] comp_def)
  moreover have "(h, st) \<in> set (map prod.swap (opened_subs s))" "(h, st') \<in> set (map prod.swap (opened_subs s))"
    using assms(2,3) by force+
  ultimately show ?thesis
    by (rule eq_key_imp_eq_value)
qed

lemma opened_subs_update [simp]:
  "opened_subs (s\<lparr>isAttached := b\<rparr>) = opened_subs s"
  "opened_subs (s\<lparr>trace := t\<rparr>) = opened_subs s"
  "opened_subs (s\<lparr>subscriptions := subs\<rparr>) = opened_subs s"
  "opened_subs (s\<lparr>streams := sts\<rparr>) = opened_subs s"
  by (simp_all add: opened_subs_def)

lemma wf_core_set_property: "wf_core props s \<Longrightarrow> wf_core props (set_property hst props p v s)"
  by (simp add: wf_core_def)

lemma wf_core_tick: "wf_core props s \<Longrightarrow> wf_core props (tick s)"
  by (simp add: wf_core_def)

lemma wf_core_source_emit: "wf_core props s \<Longrightarrow> wf_core props (source_emit st s)"
  by (simp add: wf_core_def opened_subs_def)

lemma wf_core_trace [simp]: "wf_core props (s\<lparr>trace := t\<rparr>) = wf_core props s"
  by (simp add: wf_core_def opened_subs_def)

lemma wf_core_isAttached [simp]: "wf_core props (s\<lparr>isAttached := b\<rparr>) = wf_core props s"
  by (simp add: wf_core_def opened_subs_def)

lemma wf_core_subscribe_and_store:
  assumes "wf_core props s" "st \<notin> fst ` set (subscriptions s)"
  shows "wf_core props (subscribe_and_store hst props st s)"
  using assms by (auto simp: wf_core_def update_absent)

lemma opened_subs_unsubscribe_handle:
  "opened_subs (unsubscribe_handle h s) = filter (\<lambda>x. snd x \<noteq> h) (opened_subs s)"
  by (simp add: opened_subs_def filter_map comp_def split_beta)

lemma wf_core_unsubscribe_one:
  assumes "wf_core props s"
  shows "wf_core props (unsubscribe_one st s)"
proof (cases "map_of (subscriptions s) st")
  case None
  then show ?thesis using assms by (simp add: unsubscribe_one_def)
next
  case (Some h)
  let ?s' = "(unsubscribe_handle h s)\<lparr>subscriptions := AList.delete st (subscriptions s)\<rparr>"
  have dk: "distinct (map fst (subscriptions s))" and dh: "distinct (map fst (opened s))"
    and eq: "set (opened_subs s) = set (subscriptions s)"
    using assms by (simp_all add: wf_core_def)
  have mem: "(st, h) \<in> set (subscriptions s)"
    using Some by (rule map_of_SomeD)
  have "set (filter (\<lambda>x. snd x \<noteq> h) (opened_subs s)) = set (AList.delete st (subscriptions s))"
  proof (rule set_eqI)
    fix x :: "stream \<times> handle"
    obtain st' h' where x: "x = (st', h')" by (cases x)
    have "(st', h') \<in> set (subscriptions s) \<Longrightarrow> (h' \<noteq> h) = (st' \<noteq> st)"
      using dk dh eq mem opened_subs_stream_unique [of s st h st']
      by (metis eq_key_imp_eq_value)
    then show "(x \<in> set (filter (\<lambda>x. snd x \<noteq> h) (opened_subs s)))
        = (x \<in> set (AList.delete st (subscriptions s)))"
      using eq x by (auto simp: AList.delete_eq)
  qed
  then have "set (opened_subs ?s') = set (subscriptions ?s')"
    using opened_subs_unsubscribe_handle [of h s] by (simp add: opened_subs_def)
  moreover have "distinct (map fst (opened ?s'))"
    using dh by (simp add: distinct_map_filter)
  moreover have "\<forall>h \<in> set (map fst (opened ?s')). h < next_handle ?s'"
    using assms by (auto simp: wf_core_def)
  ultimately show ?thesis
    using assms Some by (simp add: unsubscribe_one_def wf_core_def distinct_delete)
qed


lemma fold_subscribe_and_store:
  assumes "wf_core props s" "distinct sts" "set sts \<inter> fst ` set (subscriptions s) = {}"
  shows "wf_core props (fold (subscribe_and_store hst props) sts s)
    \<and> fst ` set (subscriptions (fold (subscribe_and_store hst props) sts s))
        = fst ` set (subscriptions s) \<union> set sts
    \<and> streams (fold (subscribe_and_store hst props) sts s) = streams s
    \<and> isAttached (fold (subscribe_and_store hst props) sts s) = isAttached s"
  using assms
proof (induction sts arbitrary: s)
  case Nil
  then show ?case by simp
next
  case (Cons st sts)
  have "wf_core props (subscribe_and_store hst props st s)"
    using Cons.prems by (intro wf_core_subscribe_and_store) auto
  moreover have "set sts \<inter> fst ` set (subscriptions (subscribe_and_store hst props st s)) = {}"
    using Cons.prems by (auto simp: dom_update)
  ultimately show ?case
    using Cons.IH [of "subscribe_and_store hst props st s"] Cons.prems
    by (auto simp: dom_update)
qed

lemma fold_unsubscribe_handle:
  "opened (fold (\<lambda>(st, h). unsubscribe_handle h) subs s)
     = filter (\<lambda>x. fst x \<notin> snd ` set subs) (opened s)
   \<and> cells (fold (\<lambda>(st, h). unsubscribe_handle h) subs s) = cells s
   \<and> streams (fold (\<lambda>(st, h). unsubscribe_handle h) subs s) = streams s
   \<and> isAttached (fold (\<lambda>(st, h). unsubscribe_handle h) subs s) = isAttached s
   \<and> next_handle (fold (\<lambda>(st, h). unsubscribe_handle h) subs s) = next_handle s
   \<and> trace (fold (\<lambda>(st, h). unsubscribe_handle h) subs s) = trace s"
proof (induction subs arbitrary: s)
  case Nil
  then show ?case by simp
next
  case (Cons a subs)
  obtain st h where a: "a = (st, h)" by (cases a)
  show ?case
    using Cons.IH [of "unsubscribe_handle h s"]
    by (auto simp: a intro: filter_cong)
qed

lemma opened_disconnectedCallback:
  assumes "set (opened_subs s) = set (subscriptions s)"
  shows "opened (disconnectedCallback s) = []"
proof -
  have "fst x \<in> snd ` set (subscriptions s)" if "x \<in> set (opened s)" for x
  proof -
    have "(fst (snd x), fst x) \<in> set (opened_subs s)"
      using that by (force simp: opened_subs_def split_beta)
    then show ?thesis using assms by force
  qed
  then show ?thesis
    by (simp add: disconnectedCallback_def Let_def fold_unsubscribe_handle)
qed

lemma disconnectedCallback_frame [simp]:
  "isAttached (disconnectedCallback s) = False"
  "subscriptions (disconnectedCallback s) = []"
  "streams (disconnectedCallback s) = streams s"
  "cells (disconnectedCallback s) = cells s"
  "next_handle (disconnectedCallback s) = next_handle s"
  "trace (disconnectedCallback s) = trace s @ [Signal Disconnected]"
  by (simp_all add: disconnectedCallback_def Let_def fold_unsubscribe_handle)

lemma wf_instance_disconnectedCallback:
  assumes "wf_instance props s"
  shows "wf_instance props (disconnectedCallback s)"
proof -
  have "opened (disconnectedCallback s) = []"
    using assms by (intro opened_disconnectedCallback) (simp add: wf_instance_def wf_core_def)
  then show ?thesis
    using assms by (simp add: wf_instance_def wf_core_def opened_subs_def)
qed

lemma wf_instance_connectedCallback:
  assumes "wf_instance props s" "\<not> isAttached s"
  shows "wf_instance props (connectedCallback hst props s)"
proof -
  let ?s1 = "s\<lparr>isAttached := True\<rparr>"
  have c: "wf_core props ?s1"
    using assms by (simp add: wf_instance_def)
  have d: "distinct (streams ?s1)"
    and e: "set (streams ?s1) \<inter> fst ` set (subscriptions ?s1) = {}"
    using assms by (simp_all add: wf_instance_def wf_core_def)
  show ?thesis
    using fold_subscribe_and_store [OF c d e] assms
    by (simp add: connectedCallback_def Let_def wf_instance_def)
qed

lemma fold_add_stream:
  "set (streams (fold add_stream sts s)) = set (streams s) \<union> set sts
   \<and> (distinct (streams s) \<longrightarrow> distinct (streams (fold add_stream sts s)))
   \<and> cells (fold add_stream sts s) = cells s
   \<and> isAttached (fold add_stream sts s) = isAttached s
   \<and> subscriptions (fold add_stream sts s) = subscriptions s
   \<and> opened (fold add_stream sts s) = opened s
   \<and> next_handle (fold add_stream sts s) = next_handle s
   \<and> trace (fold add_stream sts s) = trace s"
proof (induction sts arbitrary: s)
  case Nil
  then show ?case by simp
next
  case (Cons st sts)
  show ?case
    using Cons.IH [of "add_stream st s"] by (auto simp: add_stream_def)
qed

lemma fold_delete_stream:
  "streams (fold delete_stream sts s) = filter (\<lambda>x. x \<notin> set sts) (streams s)
   \<and> cells (fold delete_stream sts s) = cells s
   \<and> isAttached (fold delete_stream sts s) = isAttached s
   \<and> subscriptions (fold delete_stream sts s) = subscriptions s
   \<and> opened (fold delete_stream sts s) = opened s
   \<and> next_handle (fold delete_stream sts s) = next_handle s
   \<and> trace (fold delete_stream sts s) = trace s"
proof (induction sts arbitrary: s)
  case Nil
  then show ?case by simp
next
  case (Cons st sts)
  show ?case
    using Cons.IH [of "delete_stream st s"]
    by (auto simp: delete_stream_def removeAll_filter_not_eq intro: filter_cong)
qed

lemma fold_subscribe_new:
  assumes "wf_core props s"
  shows "wf_core props (fold (\<lambda>st s'. if map_of (subscriptions s') st \<noteq> None then s'
                            else subscribe_and_store hst props st s') sts s)
    \<and> fst ` set (subscriptions (fold (\<lambda>st s'. if map_of (subscriptions s') st \<noteq> None then s'
                            else subscribe_and_store hst props st s') sts s))
        = fst ` set (subscriptions s) \<union> set sts
    \<and> streams (fold (\<lambda>st s'. if map_of (subscriptions s') st \<noteq> None then s'
                            else subscribe_and_store hst props st s') sts s) = streams s
    \<and> isAttached (fold (\<lambda>st s'. if map_of (subscriptions s') st \<noteq> None then s'
                            else subscribe_and_store hst props st s') sts s) = isAttached s"
  using assms
proof (induction sts arbitrary: s)
  case Nil
  then show ?case by simp
next
  case (Cons st sts)
  show ?case
  proof (cases "map_of (subscriptions s) st")
    case None
    then have n: "st \<notin> fst ` set (subscriptions s)"
      by (simp add: map_of_eq_None_iff)
    have "wf_core props (subscribe_and_store hst props st s)"
      using Cons.prems n by (rule wf_core_subscribe_and_store)
    then show ?thesis
      using Cons.IH [of "subscribe_and_store hst props st s"] None
      by (auto simp: dom_update)
  next
    case (Some h)
    then have "st \<in> fst ` set (subscriptions s)"
      by (metis map_of_eq_None_iff option.distinct(1))
    then show ?thesis
      using Cons.IH [of s] Cons.prems Some by auto
  qed
qed

lemma wf_instance_subscribe:
  assumes "wf_instance props s"
  shows "wf_instance props (subscribe hst props sts s)"
proof -
  let ?s1 = "fold add_stream sts s"
  have f: "set (streams ?s1) = set (streams s) \<union> set sts" "distinct (streams ?s1)"
    "cells ?s1 = cells s" "isAttached ?s1 = isAttached s" "subscriptions ?s1 = subscriptions s"
    "opened ?s1 = opened s" "next_handle ?s1 = next_handle s"
    using fold_add_stream [of sts s] assms by (simp_all add: wf_instance_def wf_core_def)
  have c: "wf_core props ?s1"
    using assms f by (simp add: wf_instance_def wf_core_def opened_subs_def)
  show ?thesis
  proof (cases "isAttached s")
    case True
    then show ?thesis
      using fold_subscribe_new [OF c, where sts = sts and hst = hst] f assms
      by (simp add: subscribe_def Let_def wf_instance_def)
  next
    case False
    then show ?thesis
      using c f assms by (simp add: subscribe_def Let_def wf_instance_def)
  qed
qed

lemma unsubscribe_one_frame [simp]:
  "isAttached (unsubscribe_one st s) = isAttached s"
  "streams (unsubscribe_one st s) = streams s"
  "cells (unsubscribe_one st s) = cells s"
  "next_handle (unsubscribe_one st s) = next_handle s"
  "trace (unsubscribe_one st s) = trace s"
  "subscriptions (unsubscribe_one st s) = AList.delete st (subscriptions s)"
  by (auto simp: unsubscribe_one_def delete_id map_of_eq_None_iff split: option.splits)

lemma fold_unsubscribe_one:
  assumes "wf_core props s"
  shows "wf_core props (fold unsubscribe_one sts s)
    \<and> fst ` set (subscriptions (fold unsubscribe_one sts s)) = fst ` set (subscriptions s) - set sts
    \<and> streams (fold unsubscribe_one sts s) = streams s
    \<and> isAttached (fold unsubscribe_one sts s) = isAttached s"
  using assms
proof (induction sts arbitrary: s)
  case Nil
  then show ?case by simp
next
  case (Cons st sts)
  have "wf_core props (unsubscribe_one st s)"
    using Cons.prems by (rule wf_core_unsubscribe_one)
  then show ?case
    using Cons.IH [of "unsubscribe_one st s"]
    by (auto simp: AList.delete_eq)
qed

lemma wf_instance_unsubscribe:
  assumes "wf_instance props s"
  shows "wf_instance props (unsubscribe sts s)"
proof -
  let ?s1 = "fold delete_stream sts s"
  have f: "streams ?s1 = filter (\<lambda>x. x \<notin> set sts) (streams s)"
    "cells ?s1 = cells s" "isAttached ?s1 = isAttached s" "subscriptions ?s1 = subscriptions s"
    "opened ?s1 = opened s" "next_handle ?s1 = next_handle s"
    using fold_delete_stream [of sts s] by simp_all
  have c: "wf_core props ?s1"
    using assms f by (simp add: wf_instance_def wf_core_def opened_subs_def)
  show ?thesis
    using fold_unsubscribe_one [OF c, of sts] f assms
    by (auto simp: unsubscribe_def wf_instance_def)
qed


lemma fold_frame: "(\<And>x s. f (g x s) = f s) \<Longrightarrow> f (fold g xs s) = f s"
  by (induction xs arbitrary: s) simp_all

lemma connectedCallback_frame [simp]:
  "isAttached (connectedCallback hst props s) = True"
  "streams (connectedCallback hst props s) = streams s"
  "cells (connectedCallback hst props s) = cells s"
proof -
  have "isAttached (fold (subscribe_and_store hst props) sts s') = isAttached s'" for sts s'
    by (rule fold_frame) simp
  moreover have "streams (fold (subscribe_and_store hst props) sts s') = streams s'" for sts s'
    by (rule fold_frame) simp
  moreover have "cells (fold (subscribe_and_store hst props) sts s') = cells s'" for sts s'
    by (rule fold_frame) simp
  ultimately show "isAttached (connectedCallback hst props s) = True"
    "streams (connectedCallback hst props s) = streams s"
    "cells (connectedCallback hst props s) = cells s"
    by (simp_all add: connectedCallback_def Let_def)
qed

lemma subscribe_frame [simp]:
  "isAttached (subscribe hst props sts s) = isAttached s"
  "cells (subscribe hst props sts s) = cells s"
  "set (streams (subscribe hst props sts s)) = set (streams s) \<union> set sts"
proof -
  let ?g = "\<lambda>st s'. if map_of (subscriptions s') st \<noteq> None then s'
                            else subscribe_and_store hst props st s'"
  have "isAttached (fold ?g xs s') = isAttached s'" for xs s'
    by (rule fold_frame) simp
  moreover have "cells (fold ?g xs s') = cells s'" for xs s'
    by (rule fold_frame) simp
  moreover have "streams (fold ?g xs s') = streams s'" for xs s'
    by (rule fold_frame) simp
  ultimately show "isAttached (subscribe hst props sts s) = isAttached s"
    "cells (subscribe hst props sts s) = cells s"
    "set (streams (subscribe hst props sts s)) = set (streams s) \<union> set sts"
    using fold_add_stream [of sts s] by (simp_all add: subscribe_def Let_def)
qed

lemma unsubscribe_frame [simp]:
  "isAttached (unsubscribe sts s) = isAttached s"
  "cells (unsubscribe sts s) = cells s"
  "streams (unsubscribe sts s) = filter (\<lambda>x. x \<notin> set sts) (streams s)"
proof -
  have "isAttached (fold unsubscribe_one xs s') = isAttached s'" for xs s'
    by (rule fold_frame) simp
  moreover have "cells (fold unsubscribe_one xs s') = cells s'" for xs s'
    by (rule fold_frame) simp
  moreover have "streams (fold unsubscribe_one xs s') = streams s'" for xs s'
    by (rule fold_frame) simp
  ultimately show "isAttached (unsubscribe sts s) = isAttached s"
    "cells (unsubscribe sts s) = cells s"
    "streams (unsubscribe sts s) = filter (\<lambda>x. x \<notin> set sts) (streams s)"
    using fold_delete_stream [of sts s] by (simp_all add: unsubscribe_def)
qed

lemma attributeChangedCallback_frame [simp]:
  "isAttached (snd (attributeChangedCallback hst props a ov nv s)) = isAttached s"
  "streams (snd (attributeChangedCallback hst props a ov nv s)) = streams s"
  "map fst (cells (snd (attributeChangedCallback hst props a ov nv s))) = map fst (cells s)"
  by (simp_all add: attributeChangedCallback_def Let_def split: option.splits sum.splits)

lemma isAttached_step:
  "isAttached (step hst props a s)
     = (case a of OnAttach \<Rightarrow> True | OnDetach \<Rightarrow> False | _ \<Rightarrow> isAttached s)"
  by (cases a) simp_all

lemma wf_instance_attributeChangedCallback:
  assumes "wf_instance props s"
  shows "wf_instance props (snd (attributeChangedCallback hst props a ov nv s))"
  using assms
  by (auto simp: attributeChangedCallback_def Let_def wf_instance_def wf_core_set_property
      split: option.splits sum.splits)

lemma wf_instance_step:
  assumes "wf_instance props s" "a = OnAttach \<longrightarrow> \<not> isAttached s"
  shows "wf_instance props (step hst props a s)"
proof (cases a)
  case OnAttach
  then show ?thesis using assms by (simp add: wf_instance_connectedCallback)
next
  case OnDetach
  then show ?thesis using assms by (simp add: wf_instance_disconnectedCallback)
next
  case (Register sts)
  then show ?thesis using assms by (simp add: wf_instance_subscribe)
next
  case (Unregister sts)
  then show ?thesis using assms by (simp add: wf_instance_unsubscribe)
next
  case (SetProperty p v)
  then show ?thesis using assms by (simp add: wf_instance_def wf_core_set_property)
next
  case (AttributeChange a ov nv)
  then show ?thesis using assms by (simp add: wf_instance_attributeChangedCallback)
next
  case Tick
  then show ?thesis using assms by (simp add: wf_instance_def wf_core_tick)
next
  case (SourceEmit st)
  then show ?thesis using assms by (simp add: wf_instance_def wf_core_source_emit)
qed

lemma wf_instance_run:
  assumes "wf_instance props s" "attach_alternates (isAttached s) acts"
  shows "wf_instance props (run hst props acts s)"
  using assms
proof (induction acts arbitrary: s)
  case Nil
  then show ?case by (simp add: run_def)
next
  case (Cons a acts)
  have w: "wf_instance props (step hst props a s)"
    using Cons.prems by (intro wf_instance_step) (auto elim: attach_alternates.elims)
  have "attach_alternates (isAttached (step hst props a s)) acts"
    using Cons.prems(2) by (cases a) (simp_all add: isAttached_step)
  then show ?case
    using Cons.IH [OF w] by (simp add: run_def)
qed

lemma wf_instance_new: "wf_instance props (new_instance props)"
  by (simp add: wf_instance_def wf_core_def new_instance_def opened_subs_def comp_def split_beta)

lemma run_append: "run hst props (xs @ ys) s = run hst props ys (run hst props xs s)"
  by (simp add: run_def)




section \<open>One value through one subscription\<close>



lemma effect_calls_kinds [simp]:
  "filter is_effect (effect_calls hst pc p v) = effect_calls hst pc p v"
  "filter is_render (effect_calls hst pc p v) = []"
  "filter is_change (effect_calls hst pc p v) = []"
  "filter is_signal (effect_calls hst pc p v) = []"
  "filter is_set (effect_calls hst pc p v) = []"
  "filter is_run (effect_calls hst pc p v) = []"
  by (simp_all add: effect_calls_def filter_map comp_def)

lemma changes_of_calls:
  "changes_of h p (map (\<lambda>e. EffectCall e q v) xs @ es) = changes_of h p es"
  by (induction xs) simp_all

lemma changes_of_effect_calls [simp]:
  "changes_of h p (effect_calls hst pc q v @ es) = changes_of h p es"
  "changes_of h p (effect_calls hst pc q v) = []"
  using changes_of_calls [of h p q v "fst (run_effects hst pc v)" es]
    changes_of_calls [of h p q v "fst (run_effects hst pc v)" "[]"]
  by (simp_all add: effect_calls_def)

lemma pipe_next_outcome:
  obtains (skipped) "closed pi \<or> \<not> consumes_feed st \<or> map_of props q = None"
  | (failed) pc where "\<not> closed pi" "consumes_feed st" "map_of props q = Some pc"
      "\<not> effects_ok hst pc v"
  | (filtered) pc where "\<not> closed pi" "consumes_feed st" "map_of props q = Some pc"
      "effects_ok hst pc v" "\<not> distinct_pass pi q v"
  | (passed) pc where "\<not> closed pi" "consumes_feed st" "map_of props q = Some pc"
      "effects_ok hst pc v" "distinct_pass pi q v"
  by (cases "map_of props q") auto

lemma pipe_next_skipped:
  "closed pi \<or> \<not> consumes_feed st \<or> map_of props q = None \<Longrightarrow>
   pipe_next hst props st h cs q v pi = (pi, [])"
  by (auto simp: pipe_next_def)

lemma pipe_next_failed:
  assumes "\<not> closed pi" "consumes_feed st" "map_of props q = Some pc" "\<not> effects_ok hst pc v"
  shows "\<exists>err. pipe_next hst props st h cs q v pi
           = (pi\<lparr>closed := True\<rparr>, effect_calls hst pc q v @ [StreamError h err])"
  using assms by (auto simp: pipe_next_def effects_ok_def Let_def)

lemma pipe_next_filtered:
  assumes "\<not> closed pi" "consumes_feed st" "map_of props q = Some pc" "effects_ok hst pc v"
    "\<not> distinct_pass pi q v"
  shows "pipe_next hst props st h cs q v pi = (pi, effect_calls hst pc q v)"
  using assms by (simp add: pipe_next_def effects_ok_def Let_def)

lemma pipe_next_passed:
  assumes "\<not> closed pi" "consumes_feed st" "map_of props q = Some pc" "effects_ok hst pc v"
    "distinct_pass pi q v"
  shows "pipe_next hst props st h cs q v pi =
     (if st = RenderStream
      then (if throttled pi
            then (pi\<lparr>dedup_key := AList.update q v (dedup_key pi), trailing := Some (q, v)\<rparr>,
                  effect_calls hst pc q v @ [ChangeEvent h q v])
            else (pi\<lparr>dedup_key := AList.update q v (dedup_key pi), throttled := True\<rparr>,
                  effect_calls hst pc q v @ [ChangeEvent h q v, RenderCall cs]))
      else (pi\<lparr>dedup_key := AList.update q v (dedup_key pi)\<rparr>,
            effect_calls hst pc q v @ [ChangeEvent h q v]))"
  using assms by (simp add: pipe_next_def effects_ok_def Let_def throttle_next_def)

lemma pipe_next_kinds:
  "e \<in> set (snd (pipe_next hst props st h cs q v pi)) \<Longrightarrow> \<not> is_signal e \<and> \<not> is_set e \<and> \<not> is_run e"
proof (cases rule: pipe_next_outcome [where pi = pi and st = st and props = props and q = q and hst = hst and v = v])
  case skipped
  assume "e \<in> set (snd (pipe_next hst props st h cs q v pi))"
  then show ?thesis using skipped by (simp add: pipe_next_skipped)
next
  case (failed pc)
  assume e: "e \<in> set (snd (pipe_next hst props st h cs q v pi))"
  obtain err where "pipe_next hst props st h cs q v pi
      = (pi\<lparr>closed := True\<rparr>, effect_calls hst pc q v @ [StreamError h err])"
    using pipe_next_failed [OF failed] by blast
  then show ?thesis using e by (auto simp: effect_calls_def)
next
  case (filtered pc)
  assume "e \<in> set (snd (pipe_next hst props st h cs q v pi))"
  then show ?thesis using filtered by (auto simp: pipe_next_filtered effect_calls_def)
next
  case (passed pc)
  assume "e \<in> set (snd (pipe_next hst props st h cs q v pi))"
  then show ?thesis
    using passed by (auto simp: pipe_next_passed effect_calls_def split: if_splits)
qed


lemma pipe_next_changes:
  "changes_of h p (snd (pipe_next hst props st h' cs q v pi))
     = (if h' = h \<and> q = p \<and> passes hst props st q v pi then [v] else [])"
proof (cases rule: pipe_next_outcome [where pi = pi and st = st and props = props and q = q and hst = hst and v = v])
  case skipped
  then show ?thesis by (auto simp: pipe_next_skipped passes_def)
next
  case (failed pc)
  obtain err where "pipe_next hst props st h' cs q v pi
      = (pi\<lparr>closed := True\<rparr>, effect_calls hst pc q v @ [StreamError h' err])"
    using pipe_next_failed [OF failed] by blast
  then show ?thesis using failed by (simp add: passes_def)
next
  case (filtered pc)
  then show ?thesis by (simp add: pipe_next_filtered passes_def)
next
  case (passed pc)
  then show ?thesis by (simp add: pipe_next_passed passes_def)
qed

lemma pipe_next_key:
  "map_of (dedup_key (fst (pipe_next hst props st h cs q v pi))) p
     = (if q = p \<and> passes hst props st q v pi then Some v else map_of (dedup_key pi) p)"
proof (cases rule: pipe_next_outcome [where pi = pi and st = st and props = props and q = q and hst = hst and v = v])
  case skipped
  then show ?thesis by (auto simp: pipe_next_skipped passes_def)
next
  case (failed pc)
  obtain err where "pipe_next hst props st h cs q v pi
      = (pi\<lparr>closed := True\<rparr>, effect_calls hst pc q v @ [StreamError h err])"
    using pipe_next_failed [OF failed] by blast
  then show ?thesis using failed by (simp add: passes_def)
next
  case (filtered pc)
  then show ?thesis by (simp add: pipe_next_filtered passes_def)
next
  case (passed pc)
  then show ?thesis by (simp add: pipe_next_passed passes_def update_conv')
qed

lemma pipe_next_renders:
  "filter is_render (snd (pipe_next hst props st h cs p v pi))
     = (if st = RenderStream \<and> passes hst props st p v pi \<and> \<not> throttled pi
        then [RenderCall cs] else [])"
proof (cases rule: pipe_next_outcome [where pi = pi and st = st and props = props and q = p and hst = hst and v = v])
  case skipped
  then show ?thesis by (auto simp: pipe_next_skipped passes_def)
next
  case (failed pc)
  obtain err where "pipe_next hst props st h cs p v pi
      = (pi\<lparr>closed := True\<rparr>, effect_calls hst pc p v @ [StreamError h err])"
    using pipe_next_failed [OF failed] by blast
  then show ?thesis using failed by (simp add: passes_def)
next
  case (filtered pc)
  then show ?thesis by (simp add: pipe_next_filtered passes_def)
next
  case (passed pc)
  then show ?thesis by (simp add: pipe_next_passed passes_def)
qed

lemma pipe_next_throttle:
  "throttled (fst (pipe_next hst props st h cs p v pi))
     = (throttled pi \<or> (st = RenderStream \<and> passes hst props st p v pi))"
  "trailing (fst (pipe_next hst props st h cs p v pi))
     = (if st = RenderStream \<and> passes hst props st p v pi \<and> throttled pi
        then Some (p, v) else trailing pi)"
proof -
  show "throttled (fst (pipe_next hst props st h cs p v pi))
     = (throttled pi \<or> (st = RenderStream \<and> passes hst props st p v pi))"
  proof (cases rule: pipe_next_outcome [where pi = pi and st = st and props = props and q = p and hst = hst and v = v])
    case skipped
    then show ?thesis by (auto simp: pipe_next_skipped passes_def)
  next
    case (failed pc)
    obtain err where "pipe_next hst props st h cs p v pi
        = (pi\<lparr>closed := True\<rparr>, effect_calls hst pc p v @ [StreamError h err])"
      using pipe_next_failed [OF failed] by blast
    then show ?thesis using failed by (simp add: passes_def)
  next
    case (filtered pc)
    then show ?thesis by (simp add: pipe_next_filtered passes_def)
  next
    case (passed pc)
    then show ?thesis by (simp add: pipe_next_passed passes_def)
  qed
  show "trailing (fst (pipe_next hst props st h cs p v pi))
     = (if st = RenderStream \<and> passes hst props st p v pi \<and> throttled pi
        then Some (p, v) else trailing pi)"
  proof (cases rule: pipe_next_outcome [where pi = pi and st = st and props = props and q = p and hst = hst and v = v])
    case skipped
    then show ?thesis by (auto simp: pipe_next_skipped passes_def)
  next
    case (failed pc)
    obtain err where "pipe_next hst props st h cs p v pi
        = (pi\<lparr>closed := True\<rparr>, effect_calls hst pc p v @ [StreamError h err])"
      using pipe_next_failed [OF failed] by blast
    then show ?thesis using failed by (simp add: passes_def)
  next
    case (filtered pc)
    then show ?thesis by (simp add: pipe_next_filtered passes_def)
  next
    case (passed pc)
    then show ?thesis by (simp add: pipe_next_passed passes_def)
  qed
qed

lemma pipe_next_closed:
  "closed (fst (pipe_next hst props st h cs p v pi))
     = (closed pi \<or> (consumes_feed st
          \<and> (case map_of props p of None \<Rightarrow> False | Some pc \<Rightarrow> \<not> effects_ok hst pc v)))"
proof (cases rule: pipe_next_outcome [where pi = pi and st = st and props = props and q = p and hst = hst and v = v])
  case skipped
  then show ?thesis by (auto simp: pipe_next_skipped)
next
  case (failed pc)
  obtain err where "pipe_next hst props st h cs p v pi
      = (pi\<lparr>closed := True\<rparr>, effect_calls hst pc p v @ [StreamError h err])"
    using pipe_next_failed [OF failed] by blast
  then show ?thesis using failed by simp
next
  case (filtered pc)
  then show ?thesis by (simp add: pipe_next_filtered)
next
  case (passed pc)
  then show ?thesis by (simp add: pipe_next_passed)
qed

lemma strict_eq_trans_left: "strict_eq k v \<Longrightarrow> strict_eq k x = strict_eq v x"
  by (cases k; cases v; cases x) auto



lemma subscribe_and_store_start:
  "trace (subscribe_and_store hst props st s)
     = trace s @ snd (subscribe_start hst props st (next_handle s) (cells s))"
  "map_of (subscriptions (subscribe_and_store hst props st s)) st = Some (next_handle s)"
  by (simp_all add: subscribe_and_store_def subscribe_stream_def Let_def update_conv')


section \<open>Live subscriptions\<close>

subsection \<open>Subscriptions that have ended\<close>





lemma ends_known_update [simp]:
  "ends_known props (s\<lparr>isAttached := b\<rparr>) = ends_known props s"
  "ends_known props (s\<lparr>trace := t\<rparr>) = ends_known props s"
  "ends_known props (s\<lparr>subscriptions := subs\<rparr>) = ends_known props s"
  "ends_known props (s\<lparr>streams := sts\<rparr>) = ends_known props s"
  by (simp_all add: ends_known_def)














subsection \<open>Without an error, the change feed stays open\<close>




lemma feed_open_update [simp]:
  "feed_open (s\<lparr>isAttached := b\<rparr>) = feed_open s"
  "feed_open (s\<lparr>trace := t\<rparr>) = feed_open s"
  "feed_open (s\<lparr>subscriptions := subs\<rparr>) = feed_open s"
  "feed_open (s\<lparr>streams := sts\<rparr>) = feed_open s"
  by (simp_all add: feed_open_def)





lemma open_unsubscribe_handle:
  assumes "filter is_error (trace s) = [] \<longrightarrow> feed_open s"
  shows "filter is_error (trace (unsubscribe_handle h s)) = []
    \<longrightarrow> feed_open (unsubscribe_handle h s)"
  using assms by (auto simp: feed_open_def list_all_iff)







section \<open>Registration\<close>











section \<open>Attribute changes\<close>

lemma set_property_trace:
  "p \<in> fst ` set (cells s) \<Longrightarrow>
   trace (set_property hst props p v s) = trace s @ [PropertySet p v]
     @ concat (map (\<lambda>(h, st, pi). snd (pipe_next hst props st h (AList.update p v (cells s)) p v pi)) (opened s))"
  by (simp add: set_property_def Let_def comp_def split_def)

lemma set_property_other_trace:
  "p \<notin> fst ` set (cells s) \<Longrightarrow> set_property hst props p v s = s"
  by (simp add: set_property_def)

lemma filter_concat_none:
  "(\<And>x e. x \<in> set xs \<Longrightarrow> e \<in> set (f x) \<Longrightarrow> \<not> P e) \<Longrightarrow> filter P (concat (map f xs)) = []"
  by (induction xs) (auto simp: filter_empty_conv)

lemma set_property_signals_sets:
  assumes "p \<in> fst ` set (cells s)"
  shows "filter is_signal (emitted s (set_property hst props p v s)) = []"
    and "filter is_set (emitted s (set_property hst props p v s)) = [PropertySet p v]"
proof -
  let ?out = "concat (map (\<lambda>(h, st, pi). snd (pipe_next hst props st h (AList.update p v (cells s)) p v pi))
                 (opened s))"
  have e: "emitted s (set_property hst props p v s) = [PropertySet p v] @ ?out"
    using set_property_trace [OF assms] by (intro emitted_append) simp
  have "filter is_signal ?out = []"
    by (rule filter_concat_none) (auto dest!: pipe_next_kinds)
  moreover have "filter is_set ?out = []"
    by (rule filter_concat_none) (auto dest!: pipe_next_kinds)
  ultimately show "filter is_signal (emitted s (set_property hst props p v s)) = []"
    and "filter is_set (emitted s (set_property hst props p v s)) = [PropertySet p v]"
    using e by simp_all
qed

lemma set_property_cell:
  "p \<in> fst ` set (cells s) \<Longrightarrow> map_of (cells (set_property hst props p v s)) p = Some v"
  by (simp add: set_property_def Let_def update_conv')

lemma emitted_trace_update [simp]: "emitted (s\<lparr>trace := t\<rparr>) s' = drop (length t) (trace s')"
  by (simp add: emitted_def)

lemma emitted_split:
  assumes "trace s1 = trace s @ xs" "trace s2 = trace s1 @ ys"
  shows "emitted s s2 = xs @ emitted s1 s2"
  using assms by (simp add: emitted_def)

text \<open>
  Claim C8, amended. \<^verbatim>\<open>attributeChangedCallback\<close> with equal old and new values does nothing.
  With different values it emits exactly one attribute-changed signal carrying the name and
  the two values; when \<^verbatim>\<open>toCamelCase\<close> of the name is a declared property and decoding
  the new value succeeds, it then writes the decoded value to that property exactly once;
  otherwise it throws after the signal and writes nothing.
\<close>

theorem attribute_change_signal_and_write:
  assumes "map fst (cells s) = map fst props"
  shows "attributeChangedCallback hst props attr v v s = (None, s)
    \<and> (oldValue \<noteq> newValue \<longrightarrow>
        (case attributeChangedCallback hst props attr oldValue newValue s of (err, s') \<Rightarrow>
           filter is_signal (emitted s s') = [Signal (AttributeChanged attr oldValue newValue)]
           \<and> (case map_of props (toCamelCase attr) of
                None \<Rightarrow> err = Some TypeError \<and> filter is_set (emitted s s') = []
                          \<and> cells s' = cells s
              | Some pc \<Rightarrow>
                 (case deserialize hst newValue pc of
                    Inl e \<Rightarrow> err = Some e \<and> filter is_set (emitted s s') = []
                               \<and> cells s' = cells s
                  | Inr w \<Rightarrow> err = None
                      \<and> filter is_set (emitted s s') = [PropertySet (toCamelCase attr) w]
                      \<and> map_of (cells s') (toCamelCase attr) = Some w))))"
proof -
  let ?g = "Signal (AttributeChanged attr oldValue newValue)"
  let ?s1 = "s\<lparr>trace := trace s @ [?g]\<rparr>"
  let ?p = "toCamelCase attr"
  have same: "attributeChangedCallback hst props attr v v s = (None, s)"
    by (simp add: attributeChangedCallback_def)
  have e1: "emitted s ?s1 = [?g]"
    by (simp add: emitted_def)
  have wr: "filter is_signal (emitted s (set_property hst props ?p w ?s1)) = [?g]
      \<and> filter is_set (emitted s (set_property hst props ?p w ?s1)) = [PropertySet ?p w]
      \<and> map_of (cells (set_property hst props ?p w ?s1)) ?p = Some w"
    if "map_of props ?p = Some pc" for pc w
  proof -
    have "?p \<in> fst ` set props"
      using map_of_SomeD [OF that] by force
    then have "?p \<in> set (map fst (cells s))"
      using assms by simp
    then have m: "?p \<in> fst ` set (cells ?s1)"
      by simp
    obtain ys where t: "trace (set_property hst props ?p w ?s1) = trace ?s1 @ ys"
      using set_property_trace [OF m, of hst props w] by simp
    have "emitted s (set_property hst props ?p w ?s1) = [?g] @ emitted ?s1 (set_property hst props ?p w ?s1)"
      by (rule emitted_split [OF _ t]) simp
    then show ?thesis
      using set_property_signals_sets [OF m, of hst props w] set_property_cell [OF m, of hst props w]
      by simp
  qed
  show ?thesis
    using same e1 wr
    by (auto simp: attributeChangedCallback_def Let_def split: option.splits sum.splits)
qed


theorem attribute_change_signal_and_write_witness:
  "map fst (cells (new_instance [(''prop'', empty_config)])) = map fst [(''prop'', empty_config)]
   \<and> ''a'' \<noteq> ''test''
   \<and> fst (attributeChangedCallback rejecting_host [(''prop'', empty_config)] ''prop'' ''a'' ''test''
        (new_instance [(''prop'', empty_config)])) = None
   \<and> filter is_signal (emitted (new_instance [(''prop'', empty_config)])
        (snd (attributeChangedCallback rejecting_host [(''prop'', empty_config)] ''prop'' ''a'' ''test''
          (new_instance [(''prop'', empty_config)]))))
       = [Signal (AttributeChanged ''prop'' ''a'' ''test'')]
   \<and> filter is_set (emitted (new_instance [(''prop'', empty_config)])
        (snd (attributeChangedCallback rejecting_host [(''prop'', empty_config)] ''prop'' ''a'' ''test''
          (new_instance [(''prop'', empty_config)]))))
       = [PropertySet ''prop'' (JStr ''test'')]"
proof -
  have a: "map fst (cells (new_instance [(''prop'', empty_config)])) = map fst [(''prop'', empty_config)]"
    by (simp add: new_instance_def)
  have n: "''a'' \<noteq> ''test''"
    by simp
  have c: "toCamelCase ''prop'' = ''prop''"
    by code_simp
  have d: "deserialize rejecting_host ''test'' empty_config = Inr (JStr ''test'')"
    by code_simp
  show ?thesis
    using attribute_change_signal_and_write [OF a, of rejecting_host "''prop''" "''a''" "''a''" "''test''"]
      a n c d
    by (simp add: split_beta)
qed

text \<open>
  Claim C8 as stated fails. The signal is emitted before the new value is decoded, and a
  decoding error goes to the caller: for a property with the \<^verbatim>\<open>JSON\<close> converter the digit
  sends the value \<^verbatim>\<open>v2\<close> to \<^verbatim>\<open>JSON.parse\<close>, which throws a \<^verbatim>\<open>SyntaxError\<close>, and nothing
  is written. Likewise a property \<^verbatim>\<open>my_prop\<close> is observed under the attribute \<^verbatim>\<open>my-prop\<close>,
  which \<^verbatim>\<open>toCamelCase\<close> turns into \<^verbatim>\<open>myProp\<close>: the callback throws after the signal.
\<close>

theorem attribute_change_without_write_counterexample:
  "''a'' \<noteq> ''v2''
   \<and> attributeChangedCallback rejecting_host [(''prop'', empty_config\<lparr>converter := Some JSON\<rparr>)]
        ''prop'' ''a'' ''v2'' (new_instance [(''prop'', empty_config\<lparr>converter := Some JSON\<rparr>)])
      = (Some SyntaxError,
         (new_instance [(''prop'', empty_config\<lparr>converter := Some JSON\<rparr>)])
           \<lparr>trace := [Signal (AttributeChanged ''prop'' ''a'' ''v2'')]\<rparr>)
   \<and> toKebabCase ''my_prop'' = ''my-prop''
   \<and> ''a'' \<noteq> ''b''
   \<and> attributeChangedCallback rejecting_host [(''my_prop'', empty_config)] ''my-prop'' ''a'' ''b''
        (new_instance [(''my_prop'', empty_config)])
      = (Some TypeError,
         (new_instance [(''my_prop'', empty_config)])
           \<lparr>trace := [Signal (AttributeChanged ''my-prop'' ''a'' ''b'')]\<rparr>)"
proof -
  have k: "toKebabCase ''my_prop'' = ''my-prop''"
    by code_simp
  have c1: "toCamelCase ''my-prop'' = ''myProp''"
    by code_simp
  have c2: "toCamelCase ''prop'' = ''prop''"
    by code_simp
  have d: "deserialize rejecting_host ''v2'' (empty_config\<lparr>converter := Some JSON\<rparr>) = Inl SyntaxError"
    by code_simp
  show ?thesis
    using k c1 c2 d
    by (simp add: attributeChangedCallback_def Let_def new_instance_def)
qed

section \<open>Effects\<close>


lemma filter_concat_map:
  "filter P (concat (map f xs)) = concat (map (\<lambda>x. filter P (f x)) xs)"
  by (induction xs) simp_all

lemma set_property_emitted:
  "p \<in> fst ` set (cells s) \<Longrightarrow>
   emitted s (set_property hst props p v s) = PropertySet p v
     # concat (map (\<lambda>(h, st, pi). snd (pipe_next hst props st h (AList.update p v (cells s)) p v pi))
         (opened s))"
  using set_property_trace [of p s hst props v] by (intro emitted_append) simp

lemma set_property_opened:
  "p \<in> fst ` set (cells s) \<Longrightarrow>
   opened (set_property hst props p v s)
     = map (\<lambda>(h, st, pi). (h, st, fst (pipe_next hst props st h (AList.update p v (cells s)) p v pi)))
         (opened s)"
  by (simp add: set_property_def Let_def comp_def split_def)

lemma set_property_keys:
  "fst ` set (cells (set_property hst props p v s)) = fst ` set (cells s)"
  using set_property_frame(5) [of hst props p v s] by (metis list.set_map)




subsection \<open>The constructor's stream stays registered\<close>

lemma streams_step:
  "set (streams (step hst props a s))
     = (case a of Register sts \<Rightarrow> set (streams s) \<union> set sts
        | Unregister sts \<Rightarrow> set (streams s) - set sts
        | _ \<Rightarrow> set (streams s))"
  by (cases a) auto

lemma render_stream_registered:
  assumes "client_streams acts" "RenderStream \<in> set (streams s)"
  shows "RenderStream \<in> set (streams (run hst props acts s))"
  using assms
proof (induction acts arbitrary: s)
  case Nil
  then show ?case by (simp add: run_def)
next
  case (Cons a acts)
  have "RenderStream \<in> set (streams (step hst props a s))"
    using Cons.prems by (cases a) (auto simp: streams_step)
  moreover have "client_streams acts"
    using Cons.prems(1) by (cases a) simp_all
  ultimately show ?case
    using Cons.IH by (simp add: run_def)
qed

lemma reached_instance:
  assumes "attach_alternates False acts"
  shows "wf_instance props (run hst props acts (new_instance props))"
  using assms by (intro wf_instance_run wf_instance_new) (simp add: new_instance_def)

lemma reached_render_stream:
  assumes "client_streams acts"
  shows "RenderStream \<in> set (streams (run hst props acts (new_instance props)))"
  using assms by (intro render_stream_registered) (simp_all add: new_instance_def)








section \<open>The change feed\<close>

lemma maximal_runs_head:
  "\<exists>r rs. maximal_runs (v # vs) = (v # r) # rs"
  by (cases "maximal_runs vs") auto

lemma heads_of_runs:
  "map hd (maximal_runs (v # vs)) = v # tl (map hd (maximal_runs (v # vs)))"
  using maximal_runs_head [of v vs] by auto

lemma runs_skip_equal:
  assumes "strict_eq k v"
  shows "tl (map hd (maximal_runs (k # v # vs))) = tl (map hd (maximal_runs (k # vs)))"
proof (cases "maximal_runs vs")
  case Nil
  then show ?thesis using assms by simp
next
  case (Cons r rs)
  have "strict_eq k (hd r) = strict_eq v (hd r)"
    using assms by (rule strict_eq_trans_left)
  then show ?thesis
    using Cons assms by simp
qed

lemma runs_keep_different:
  assumes "\<not> strict_eq k v"
  shows "tl (map hd (maximal_runs (k # v # vs))) = map hd (maximal_runs (v # vs))"
proof -
  obtain r rs where "maximal_runs (v # vs) = (v # r) # rs"
    using maximal_runs_head by blast
  then show ?thesis
    using assms by (simp del: maximal_runs.simps add: maximal_runs.simps(2) [of k])
qed

lemma changes_of_append [simp]:
  "changes_of h p (xs @ ys) = changes_of h p xs @ changes_of h p ys"
  by (induction h p xs rule: changes_of.induct) simp_all

lemma changes_of_concat:
  "changes_of h p (concat (map f xs)) = concat (map (\<lambda>x. changes_of h p (f x)) xs)"
  by (induction xs) simp_all

lemma concat_map_only:
  assumes "filter P xs = [a]" "\<And>x. x \<in> set xs \<Longrightarrow> \<not> P x \<Longrightarrow> f x = []"
  shows "concat (map f xs) = f a"
  using assms
proof (induction xs)
  case Nil
  then show ?case by simp
next
  case (Cons x xs)
  show ?case
  proof (cases "P x")
    case True
    then have "filter P xs = []" and "x = a"
      using Cons.prems(1) by simp_all
    then have "concat (map f xs) = []"
      using Cons.prems(2) by (auto simp: filter_empty_conv)
    then show ?thesis
      using \<open>x = a\<close> by simp
  next
    case False
    then show ?thesis
      using Cons by simp
  qed
qed

text \<open>One write, seen by the subscription with handle \<open>h\<close>.\<close>

lemma write_seen_by:
  assumes one: "filter (\<lambda>x. fst x = h) (opened s) = [(h, st, pi)]"
    and feed: "consumes_feed st" and live: "\<not> closed pi" and decl: "map_of props p = Some pc"
    and cell: "p \<in> fst ` set (cells s)" and key: "map_of (dedup_key pi) p = Some k"
    and ok: "effects_ok hst pc v"
  shows "changes_of h p (emitted s (set_property hst props p v s))
           = (if strict_eq k v then [] else [v])"
    and "\<exists>pi'. filter (\<lambda>x. fst x = h) (opened (set_property hst props p v s)) = [(h, st, pi')]
           \<and> \<not> closed pi' \<and> map_of (dedup_key pi') p = Some (if strict_eq k v then k else v)"
proof -
  let ?cs = "AList.update p v (cells s)"
  let ?g = "\<lambda>x. changes_of h p (case x of (h', st', pi') \<Rightarrow>
      snd (pipe_next hst props st' h' ?cs p v pi'))"
  have pass: "passes hst props st p v pi = (\<not> strict_eq k v)"
    using key feed live decl ok by (simp add: passes_def distinct_pass_def)
  have "concat (map ?g (opened s)) = ?g (h, st, pi)"
    by (rule concat_map_only [OF one]) (auto simp: pipe_next_changes)
  then show "changes_of h p (emitted s (set_property hst props p v s))
      = (if strict_eq k v then [] else [v])"
    using cell pass
    by (simp add: set_property_emitted changes_of_concat pipe_next_changes)
  let ?F = "\<lambda>x. case x of (h', st', pi') \<Rightarrow>
      (h', st', fst (pipe_next hst props st' h' ?cs p v pi'))"
  have "filter (\<lambda>x. fst x = h) (map ?F (opened s)) = map ?F (filter (\<lambda>x. fst x = h) (opened s))"
    by (simp add: filter_map comp_def split_def)
  then have "filter (\<lambda>x. fst x = h) (opened (set_property hst props p v s))
      = [(h, st, fst (pipe_next hst props st h ?cs p v pi))]"
    using cell one by (simp add: set_property_opened)
  moreover have "map_of (dedup_key (fst (pipe_next hst props st h ?cs p v pi))) p
      = Some (if strict_eq k v then k else v)"
    using pass key by (simp add: pipe_next_key)
  moreover have "\<not> closed (fst (pipe_next hst props st h ?cs p v pi))"
    using live decl ok by (simp add: pipe_next_closed)
  ultimately show "\<exists>pi'. filter (\<lambda>x. fst x = h) (opened (set_property hst props p v s)) = [(h, st, pi')]
           \<and> \<not> closed pi' \<and> map_of (dedup_key pi') p = Some (if strict_eq k v then k else v)"
    by blast
qed

lemma fold_set_property_trace:
  "\<exists>out. trace (fold (set_property hst props p) ws s) = trace s @ out"
proof (induction ws arbitrary: s)
  case Nil
  then show ?case by simp
next
  case (Cons w ws)
  obtain out1 where "trace (set_property hst props p w s) = trace s @ out1"
    by (cases "p \<in> fst ` set (cells s)") (auto simp: set_property_trace set_property_other_trace)
  moreover obtain out2 where "trace (fold (set_property hst props p) ws (set_property hst props p w s))
      = trace (set_property hst props p w s) @ out2"
    using Cons.IH by blast
  ultimately show ?case by simp
qed

lemma writes_seen_by:
  assumes "filter (\<lambda>x. fst x = h) (opened s) = [(h, st, pi)]"
    and "consumes_feed st" and "\<not> closed pi" and "map_of props p = Some pc"
    and "p \<in> fst ` set (cells s)" and "map_of (dedup_key pi) p = Some k"
    and "list_all (effects_ok hst pc) ws"
  shows "changes_of h p (emitted s (fold (set_property hst props p) ws s))
           = tl (map hd (maximal_runs (k # ws)))"
  using assms(1,3,5,6,7)
proof (induction ws arbitrary: s pi k)
  case Nil
  then show ?case by (simp add: emitted_def)
next
  case (Cons w ws)
  let ?s1 = "set_property hst props p w s"
  let ?k1 = "if strict_eq k w then k else w"
  have okw: "effects_ok hst pc w" and oks: "list_all (effects_ok hst pc) ws"
    using Cons.prems(5) by simp_all
  note seen = write_seen_by [OF Cons.prems(1) assms(2) Cons.prems(2) assms(4) Cons.prems(3,4) okw]
  obtain pi' where one': "filter (\<lambda>x. fst x = h) (opened ?s1) = [(h, st, pi')]"
    and live': "\<not> closed pi'" and key': "map_of (dedup_key pi') p = Some ?k1"
    using seen(2) by blast
  have cell': "p \<in> fst ` set (cells ?s1)"
    using Cons.prems(3) by (simp add: set_property_keys)
  have ih: "changes_of h p (emitted ?s1 (fold (set_property hst props p) ws ?s1))
      = tl (map hd (maximal_runs (?k1 # ws)))"
    using Cons.IH [OF one' live' cell' key' oks] .
  obtain out1 where t1: "trace ?s1 = trace s @ out1"
    using set_property_trace [OF Cons.prems(3)] by blast
  obtain out2 where t2: "trace (fold (set_property hst props p) ws ?s1) = trace ?s1 @ out2"
    using fold_set_property_trace by blast
  have e1: "emitted s ?s1 = out1"
    using t1 by (rule emitted_append)
  have "emitted s (fold (set_property hst props p) ws ?s1)
      = out1 @ emitted ?s1 (fold (set_property hst props p) ws ?s1)"
    using t1 t2 by (rule emitted_split)
  then have "changes_of h p (emitted s (fold (set_property hst props p) (w # ws) s))
      = (if strict_eq k w then [] else [w]) @ tl (map hd (maximal_runs (?k1 # ws)))"
    using seen(1) ih e1 by simp
  also have "\<dots> = tl (map hd (maximal_runs (k # w # ws)))"
  proof (cases "strict_eq k w")
    case True
    then show ?thesis by (simp add: runs_skip_equal del: maximal_runs.simps)
  next
    case False
    then show ?thesis
      using heads_of_runs [of w ws] by (simp add: runs_keep_different del: maximal_runs.simps)
  qed
  finally show ?case .
qed

lemma replay_Cons:
  "fst (replay hst props st h cs ((q, w) # rest) pi)
     = fst (replay hst props st h cs rest (fst (pipe_next hst props st h cs q w pi)))"
  "snd (replay hst props st h cs ((q, w) # rest) pi)
     = snd (pipe_next hst props st h cs q w pi)
       @ snd (replay hst props st h cs rest (fst (pipe_next hst props st h cs q w pi)))"
  by (simp_all add: split_def Let_def)

lemma replay_ok_Cons:
  "replay_ok hst props ((q, w) # L)
     = ((case map_of props q of None \<Rightarrow> True | Some pc \<Rightarrow> effects_ok hst pc w)
        \<and> replay_ok hst props L)"
  by (simp add: replay_ok_def)

lemma pipe_next_stays_open:
  assumes "\<not> closed pi" "case map_of props q of None \<Rightarrow> True | Some pc \<Rightarrow> effects_ok hst pc w"
  shows "\<not> closed (fst (pipe_next hst props st h cs q w pi))"
  using assms by (auto simp: pipe_next_closed split: option.splits)

lemma replay_stays_open:
  assumes "\<not> closed pi" "replay_ok hst props L"
  shows "\<not> closed (fst (replay hst props st h cs L pi))"
  using assms
proof (induction L arbitrary: pi)
  case Nil
  then show ?case by simp
next
  case (Cons x L)
  obtain q w where x: "x = (q, w)" by (cases x)
  have "\<not> closed (fst (pipe_next hst props st h cs q w pi))"
    using Cons.prems by (intro pipe_next_stays_open) (simp_all add: x replay_ok_Cons)
  then show ?case
    using Cons.IH [of "fst (pipe_next hst props st h cs q w pi)"] Cons.prems(2)
    by (simp add: x replay_Cons replay_ok_Cons del: replay.simps)
qed

lemma replay_other:
  assumes "p \<notin> fst ` set L"
  shows "changes_of h p (snd (replay hst props st h cs L pi)) = []
    \<and> map_of (dedup_key (fst (replay hst props st h cs L pi))) p = map_of (dedup_key pi) p"
  using assms
proof (induction L arbitrary: pi)
  case Nil
  then show ?case by simp
next
  case (Cons x L)
  obtain q w where x: "x = (q, w)" by (cases x)
  have "q \<noteq> p" and "p \<notin> fst ` set L"
    using Cons.prems x by auto
  then show ?case
    using Cons.IH [of "fst (pipe_next hst props st h cs q w pi)"]
    by (simp add: x replay_Cons pipe_next_changes pipe_next_key del: replay.simps)
qed

lemma replay_seen:
  assumes "map_of props p = Some pc" "consumes_feed st" "distinct (map fst L)"
    and "map_of L p = Some cur" "map_of (dedup_key pi) p = None"
    and "\<not> closed pi" "replay_ok hst props L"
  shows "changes_of h p (snd (replay hst props st h cs L pi)) = [cur]
    \<and> map_of (dedup_key (fst (replay hst props st h cs L pi))) p = Some cur"
  using assms(3-7)
proof (induction L arbitrary: pi)
  case Nil
  then show ?case by simp
next
  case (Cons x L)
  obtain q w where x: "x = (q, w)" by (cases x)
  have okx: "case map_of props q of None \<Rightarrow> True | Some pc \<Rightarrow> effects_ok hst pc w"
    and okL: "replay_ok hst props L"
    using Cons.prems(5) by (simp_all add: x replay_ok_Cons)
  show ?case
  proof (cases "q = p")
    case True
    then have w: "w = cur" and n: "p \<notin> fst ` set L"
      using Cons.prems x by auto
    have "passes hst props st p cur pi"
      using Cons.prems(3,4) assms(1,2) okx True w by (simp add: passes_def distinct_pass_def)
    then show ?thesis
      using replay_other [OF n, of h hst props st cs "fst (pipe_next hst props st h cs p cur pi)"]
        True w
      by (simp add: x replay_Cons pipe_next_changes pipe_next_key del: replay.simps)
  next
    case False
    then have "map_of L p = Some cur" "distinct (map fst L)"
      using Cons.prems x by auto
    moreover have "map_of (dedup_key (fst (pipe_next hst props st h cs q w pi))) p = None"
      using False Cons.prems(3) by (simp add: pipe_next_key)
    moreover have "\<not> closed (fst (pipe_next hst props st h cs q w pi))"
      using Cons.prems(4) okx by (rule pipe_next_stays_open)
    ultimately show ?thesis
      using Cons.IH [of "fst (pipe_next hst props st h cs q w pi)"] False okL
      by (simp add: x replay_Cons pipe_next_changes del: replay.simps)
  qed
qed

lemma subscribe_stream_feed:
  assumes "consumes_feed st" "props \<noteq> []"
  shows "opened (snd (subscribe_stream hst props st s)) = opened s
            @ [(next_handle s, st,
                fst (replay hst props st (next_handle s) (cells s) (cells s) fresh_pipe))]"
    and "trace (snd (subscribe_stream hst props st s)) = trace s
            @ snd (replay hst props st (next_handle s) (cells s) (cells s) fresh_pipe)"
  using assms by (cases st; simp add: subscribe_stream_def subscribe_start_def Let_def)+

lemma run_writes:
  "run hst props (map (SetProperty p) ws) s = fold (set_property hst props p) ws s"
  by (induction ws arbitrary: s) (simp_all add: run_def)

text \<open>
  Claim C1, amended. A subscription of the change feed (the constructor's stream, or a stream
  derived from \<^verbatim>\<open>propertyChanged$\<close>) starts with the replay of the current values. As long
  as no effect handler throws, on the values replayed and on the values written, the
  following holds for a declared property and any sequence of writes to it after the
  subscription: the feed delivers to that subscription exactly one event per maximal run of
  consecutive equal values of the sequence made of the value at subscription time followed
  by the written values, each carrying the first value of its run, in the order of the
  writes.
\<close>

theorem change_feed_one_event_per_run:
  assumes "\<forall>h \<in> set (map fst (opened s)). h < next_handle s"
    and "consumes_feed st" and "map_of props p = Some pc"
    and "distinct (map fst (cells s))" and "map_of (cells s) p = Some cur"
    and "replay_ok hst props (cells s)" and "list_all (effects_ok hst pc) ws"
  shows "changes_of (next_handle s) p
           (emitted s (run hst props (map (SetProperty p) ws) (snd (subscribe_stream hst props st s))))
         = map hd (maximal_runs (cur # ws))"
proof -
  let ?h = "next_handle s"
  let ?s1 = "snd (subscribe_stream hst props st s)"
  let ?r = "replay hst props st ?h (cells s) (cells s) fresh_pipe"
  have ne: "props \<noteq> []"
    using assms(3) by auto
  have l1: "opened ?s1 = opened s @ [(?h, st, fst ?r)]" and t1: "trace ?s1 = trace s @ snd ?r"
    using subscribe_stream_feed [OF assms(2) ne] by simp_all
  have fresh: "\<not> closed fresh_pipe" "map_of (dedup_key fresh_pipe) p = None"
    by (simp_all add: fresh_pipe_def)
  have seen: "changes_of ?h p (snd ?r) = [cur]" and key: "map_of (dedup_key (fst ?r)) p = Some cur"
    using replay_seen [OF assms(3,2,4,5) fresh(2,1) assms(6), of ?h "cells s"] by simp_all
  have live: "\<not> closed (fst ?r)"
    using fresh(1) assms(6) by (rule replay_stays_open)
  have "filter (\<lambda>x. fst x = ?h) (opened s) = []"
    using assms(1) by (auto simp: filter_empty_conv)
  then have one: "filter (\<lambda>x. fst x = ?h) (opened ?s1) = [(?h, st, fst ?r)]"
    using l1 by simp
  have cell: "p \<in> fst ` set (cells ?s1)"
    using map_of_SomeD [OF assms(5)] by force
  have later: "changes_of ?h p (emitted ?s1 (fold (set_property hst props p) ws ?s1))
      = tl (map hd (maximal_runs (cur # ws)))"
    using one assms(2) live assms(3) cell key assms(7) by (rule writes_seen_by)
  obtain out where t2: "trace (fold (set_property hst props p) ws ?s1) = trace ?s1 @ out"
    using fold_set_property_trace by blast
  have "emitted s (fold (set_property hst props p) ws ?s1)
      = snd ?r @ emitted ?s1 (fold (set_property hst props p) ws ?s1)"
    using t1 t2 by (rule emitted_split)
  then show ?thesis
    using seen later heads_of_runs [of cur ws]
    by (simp add: run_writes del: maximal_runs.simps)
qed

theorem change_feed_one_event_per_run_witness:
  "opened (new_instance [(''prop'', empty_config\<lparr>reflect := Some True\<rparr>)]) = []
   \<and> consumes_feed RenderStream
   \<and> distinct (map fst (cells (new_instance [(''prop'', empty_config\<lparr>reflect := Some True\<rparr>)])))
   \<and> map_of (cells (new_instance [(''prop'', empty_config\<lparr>reflect := Some True\<rparr>)])) ''prop''
       = Some JUndefined
   \<and> replay_ok rejecting_host [(''prop'', empty_config\<lparr>reflect := Some True\<rparr>)]
       (cells (new_instance [(''prop'', empty_config\<lparr>reflect := Some True\<rparr>)]))
   \<and> list_all (effects_ok rejecting_host (empty_config\<lparr>reflect := Some True\<rparr>))
       [JNum 1, JNum 1, JNum 2]
   \<and> changes_of 0 ''prop'' (emitted (new_instance [(''prop'', empty_config\<lparr>reflect := Some True\<rparr>)])
        (run rejecting_host [(''prop'', empty_config\<lparr>reflect := Some True\<rparr>)]
          (map (SetProperty ''prop'') [JNum 1, JNum 1, JNum 2])
          (snd (subscribe_stream rejecting_host [(''prop'', empty_config\<lparr>reflect := Some True\<rparr>)]
            RenderStream (new_instance [(''prop'', empty_config\<lparr>reflect := Some True\<rparr>)])))))
      = [JUndefined, JNum 1, JNum 2]"
proof -
  let ?pc = "empty_config\<lparr>reflect := Some True\<rparr>"
  let ?P = "[(''prop'', ?pc)]"
  have a: "\<forall>h \<in> set (map fst (opened (new_instance ?P))). h < next_handle (new_instance ?P)"
    by (simp add: new_instance_def)
  have b: "consumes_feed RenderStream"
    by simp
  have c: "map_of ?P ''prop'' = Some ?pc"
    by simp
  have d: "distinct (map fst (cells (new_instance ?P)))"
    by (simp add: new_instance_def)
  have e: "map_of (cells (new_instance ?P)) ''prop'' = Some JUndefined"
    by (simp add: new_instance_def)
  have f: "replay_ok rejecting_host ?P (cells (new_instance ?P))"
    by code_simp
  have g: "list_all (effects_ok rejecting_host ?pc) [JNum 1, JNum 1, JNum 2]"
    by code_simp
  have n: "next_handle (new_instance ?P) = 0"
    by (simp add: new_instance_def)
  show ?thesis
    using change_feed_one_event_per_run [OF a b c d e f g] b d e f g n
    by (simp add: new_instance_def)
qed

text \<open>
  Claim C1 as stated, over every sequence of writes and the written values alone, fails. One
  write of \<^verbatim>\<open>1\<close> after attaching is one run, and the feed has delivered two events, the
  seed \<^verbatim>\<open>undefined\<close> and \<^verbatim>\<open>1\<close>. One write of \<^verbatim>\<open>undefined\<close> after attaching is one
  run, and the feed delivers nothing for it, the write being equal to the seed. Writes of
  \<^verbatim>\<open>1\<close> and \<^verbatim>\<open>2\<close> before attaching are two runs, and the feed delivers one event in all,
  the replay of \<^verbatim>\<open>2\<close> when the instance is attached. And for a reflected property a
  write of an object without \<^verbatim>\<open>toString\<close> makes \<^verbatim>\<open>reflect\<close> throw, which ends the
  subscription: of the three runs written, the feed delivers neither the object nor the
  \<^verbatim>\<open>1\<close> written after it.
\<close>

theorem seed_in_change_feed_counterexample:
  "changes_of 0 ''prop'' (trace (run rejecting_host [(''prop'', empty_config)]
        [OnAttach, SetProperty ''prop'' (JNum 1)] (new_instance [(''prop'', empty_config)])))
     = [JUndefined, JNum 1]
   \<and> maximal_runs [JNum 1] = [[JNum 1]]
   \<and> changes_of 0 ''prop'' (emitted
        (run rejecting_host [(''prop'', empty_config)] [OnAttach]
          (new_instance [(''prop'', empty_config)]))
        (run rejecting_host [(''prop'', empty_config)] [OnAttach, SetProperty ''prop'' JUndefined]
          (new_instance [(''prop'', empty_config)])))
     = []
   \<and> maximal_runs [JUndefined] = [[JUndefined]]
   \<and> filter is_change (trace (run rejecting_host [(''prop'', empty_config)]
        [SetProperty ''prop'' (JNum 1), SetProperty ''prop'' (JNum 2), OnAttach]
        (new_instance [(''prop'', empty_config)])))
     = [ChangeEvent 0 ''prop'' (JNum 2)]
   \<and> maximal_runs [JNum 1, JNum 2] = [[JNum 1], [JNum 2]]
   \<and> changes_of 0 ''prop'' (emitted
        (run rejecting_host [(''prop'', empty_config\<lparr>reflect := Some True\<rparr>)] [OnAttach]
          (new_instance [(''prop'', empty_config\<lparr>reflect := Some True\<rparr>)]))
        (run rejecting_host [(''prop'', empty_config\<lparr>reflect := Some True\<rparr>)]
          [OnAttach, SetProperty ''prop'' (JNum 2), SetProperty ''prop'' (JObj 0 ToStringFalsy),
           SetProperty ''prop'' (JNum 1)]
          (new_instance [(''prop'', empty_config\<lparr>reflect := Some True\<rparr>)])))
     = [JNum 2]
   \<and> maximal_runs [JNum 2, JObj 0 ToStringFalsy, JNum 1]
       = [[JNum 2], [JObj 0 ToStringFalsy], [JNum 1]]"
  by code_simp

section \<open>One subscription per registered stream\<close>








section \<open>The throttle\<close>

lemma entries_of_alt: "entries_of st s = filter (\<lambda>x. fst (snd x) = st) (opened s)"
  by (simp add: entries_of_def split_def)

lemma emitted_trans:
  assumes "trace s1 = trace s @ xs" "trace s2 = trace s1 @ ys"
  shows "emitted s s2 = emitted s s1 @ emitted s1 s2"
  using assms by (simp add: emitted_def)

lemma write_through_render_stream:
  assumes one: "entries_of RenderStream s = [(h, RenderStream, pi)]"
    and cell: "p \<in> fst ` set (cells s)"
  shows "filter is_render (emitted s (set_property hst props p v s))
           = filter is_render (snd (pipe_next hst props RenderStream h (cells (set_property hst props p v s)) p v pi))"
    and "entries_of RenderStream (set_property hst props p v s)
           = [(h, RenderStream, fst (pipe_next hst props RenderStream h (cells (set_property hst props p v s)) p v pi))]"
proof -
  let ?cs = "AList.update p v (cells s)"
  have cs: "cells (set_property hst props p v s) = ?cs"
    using cell by (simp add: set_property_def Let_def)
  let ?g = "\<lambda>x. filter is_render (case x of (h', st', pi') \<Rightarrow> snd (pipe_next hst props st' h' ?cs p v pi'))"
  have "concat (map ?g (opened s)) = ?g (h, RenderStream, pi)"
    by (rule concat_map_only [OF one [unfolded entries_of_alt]]) (auto simp: pipe_next_renders)
  then show "filter is_render (emitted s (set_property hst props p v s))
      = filter is_render (snd (pipe_next hst props RenderStream h (cells (set_property hst props p v s)) p v pi))"
    using cell by (simp add: set_property_emitted filter_concat_map cs)
  let ?F = "\<lambda>x. case x of (h', st', pi') \<Rightarrow> (h', st', fst (pipe_next hst props st' h' ?cs p v pi'))"
  have "filter (\<lambda>x. fst (snd x) = RenderStream) (map ?F (opened s))
      = map ?F (filter (\<lambda>x. fst (snd x) = RenderStream) (opened s))"
    by (simp add: filter_map comp_def split_def)
  then show "entries_of RenderStream (set_property hst props p v s)
      = [(h, RenderStream, fst (pipe_next hst props RenderStream h (cells (set_property hst props p v s)) p v pi))]"
    using cell one by (simp add: set_property_opened entries_of_alt cs)
qed

lemma tick_trace:
  "trace (tick s) = trace s @ concat (map (\<lambda>(h, st, pi).
      if st = RenderStream \<and> \<not> closed pi then snd (throttle_end (cells s) pi) else []) (opened s))"
  by (simp add: tick_def Let_def comp_def split_def if_distrib [of snd] cong: if_cong)

lemma tick_opened:
  "opened (tick s) = map (\<lambda>(h, st, pi).
      (h, st, if st = RenderStream \<and> \<not> closed pi then fst (throttle_end (cells s) pi) else pi))
      (opened s)"
  by (simp add: tick_def Let_def comp_def split_def if_distrib [of fst] cong: if_cong)

lemma tick_through_render_stream:
  assumes one: "entries_of RenderStream s = [(h, RenderStream, pi)]"
  shows "filter is_render (emitted s (tick s))
           = (if closed pi then [] else snd (throttle_end (cells s) pi))"
    and "entries_of RenderStream (tick s)
           = [(h, RenderStream, if closed pi then pi else fst (throttle_end (cells s) pi))]"
proof -
  let ?g = "\<lambda>x. case x of (h', st', pi') \<Rightarrow>
      if st' = RenderStream \<and> \<not> closed pi' then snd (throttle_end (cells s) pi') else []"
  have "concat (map ?g (opened s)) = ?g (h, RenderStream, pi)"
    by (rule concat_map_only [OF one [unfolded entries_of_alt]]) auto
  moreover have "emitted s (tick s) = concat (map ?g (opened s))"
    by (rule emitted_append) (simp add: tick_trace)
  moreover have "filter is_render (snd (throttle_end (cells s) pi)) = snd (throttle_end (cells s) pi)"
    by (simp add: throttle_end_def split: option.splits)
  ultimately show "filter is_render (emitted s (tick s))
      = (if closed pi then [] else snd (throttle_end (cells s) pi))"
    by simp
  let ?F = "\<lambda>x. case x of (h', st', pi') \<Rightarrow>
      (h', st', if st' = RenderStream \<and> \<not> closed pi' then fst (throttle_end (cells s) pi') else pi')"
  have "filter (\<lambda>x. fst (snd x) = RenderStream) (map ?F (opened s))
      = map ?F (filter (\<lambda>x. fst (snd x) = RenderStream) (opened s))"
    by (simp add: filter_map comp_def split_def)
  then show "entries_of RenderStream (tick s)
      = [(h, RenderStream, if closed pi then pi else fst (throttle_end (cells s) pi))]"
    using one by (simp add: tick_opened entries_of_alt)
qed

lemma fold_extends:
  assumes "\<And>x s. \<exists>out. trace (g x s) = trace s @ out"
  shows "\<exists>out. trace (fold g xs s) = trace s @ out"
proof (induction xs arbitrary: s)
  case Nil
  then show ?case by simp
next
  case (Cons x xs)
  obtain out1 where "trace (g x s) = trace s @ out1"
    using assms by blast
  moreover obtain out2 where "trace (fold g xs (g x s)) = trace (g x s) @ out2"
    using Cons.IH by blast
  ultimately show ?case by simp
qed

lemma subscribe_and_store_extends:
  "\<exists>out. trace (subscribe_and_store hst props st s) = trace s @ out"
  by (simp add: subscribe_and_store_start)

lemma step_trace: "\<exists>out. trace (step hst props a s) = trace s @ out"
proof (cases a)
  case OnAttach
  obtain out where "trace (fold (subscribe_and_store hst props) (streams s) (s\<lparr>isAttached := True\<rparr>))
      = trace (s\<lparr>isAttached := True\<rparr>) @ out"
    using fold_extends [of "subscribe_and_store hst props", OF subscribe_and_store_extends] by blast
  then show ?thesis
    using OnAttach by (simp add: connectedCallback_def Let_def)
next
  case OnDetach
  then show ?thesis by simp
next
  case (Register sts)
  let ?g = "\<lambda>st s'. if map_of (subscriptions s') st \<noteq> None then s'
                            else subscribe_and_store hst props st s'"
  have "\<exists>out. trace (?g x s') = trace s' @ out" for x s'
    using subscribe_and_store_extends [of hst props x s'] by auto
  then obtain out where "trace (fold ?g sts (fold add_stream sts s))
      = trace (fold add_stream sts s) @ out"
    using fold_extends [of ?g sts "fold add_stream sts s"] by blast
  then show ?thesis
    using Register fold_add_stream [of sts s] by (simp add: subscribe_def Let_def)
next
  case (Unregister sts)
  have "trace (fold unsubscribe_one sts s') = trace s'" for s'
    by (rule fold_frame) simp
  then show ?thesis
    using Unregister fold_delete_stream [of sts s] by (simp add: unsubscribe_def)
next
  case (SetProperty p v)
  then show ?thesis
    by (cases "p \<in> fst ` set (cells s)") (simp_all add: set_property_trace set_property_other_trace)
next
  case (AttributeChange at ov nv)
  let ?s1 = "s\<lparr>trace := trace s @ [Signal (AttributeChanged at ov nv)]\<rparr>"
  have ext: "\<exists>out. trace (set_property hst props p v ?s1) = trace s @ out" for p v
  proof (cases "p \<in> fst ` set (cells ?s1)")
    case True
    show ?thesis
      unfolding set_property_trace [OF True] by simp
  next
    case False
    then show ?thesis
      by (simp add: set_property_other_trace)
  qed
  have "snd (attributeChangedCallback hst props at ov nv s) = s
      \<or> snd (attributeChangedCallback hst props at ov nv s) = ?s1
      \<or> (\<exists>v. snd (attributeChangedCallback hst props at ov nv s)
            = set_property hst props (toCamelCase at) v ?s1)"
    by (auto simp: attributeChangedCallback_def Let_def split: option.splits sum.splits)
  then show ?thesis
    using AttributeChange ext [of "toCamelCase at"] by auto
next
  case Tick
  then show ?thesis by (simp add: tick_trace)
next
  case (SourceEmit x)
  then show ?thesis by (simp add: source_emit_def)
qed

lemma run_trace: "\<exists>out. trace (run hst props acts s) = trace s @ out"
  unfolding run_def using step_trace by (rule fold_extends)

lemma idle_ticks:
  assumes "entries_of RenderStream s = [(h, RenderStream, pi)]" "\<not> throttled pi"
  shows "filter is_render (emitted s (run hst props (replicate n Tick) s)) = []"
  using assms(1)
proof (induction n arbitrary: s)
  case 0
  then show ?case by (simp add: run_def emitted_def)
next
  case (Suc n)
  have e: "throttle_end (cells s) pi = (pi, [])"
    using assms(2) by (simp add: throttle_end_def)
  have r1: "filter is_render (emitted s (tick s)) = []"
    and l1: "entries_of RenderStream (tick s) = [(h, RenderStream, pi)]"
    using tick_through_render_stream [OF Suc.prems] e by simp_all
  have r2: "filter is_render (emitted (tick s) (run hst props (replicate n Tick) (tick s))) = []"
    using l1 by (rule Suc.IH)
  obtain out1 where t1: "trace (tick s) = trace s @ out1"
    using tick_trace by blast
  obtain out2 where t2: "trace (run hst props (replicate n Tick) (tick s)) = trace (tick s) @ out2"
    using run_trace by blast
  show ?case
    using emitted_trans [OF t1 t2] r1 r2 by (simp add: run_def)
qed


text \<open>
  Claim C2, amended. Take an instance whose one subscription of the constructor's stream is
  live and has no interval running, and three writes to a declared property before the
  scheduler runs, on none of which an effect handler throws, the first of which passes the
  deduplication and the other two not both equal to it. The first write renders at once,
  with the first value; the two others render nothing; when the scheduler runs, the end of
  the interval renders once, with the last value written; and nothing is rendered after
  that, however often the scheduler runs: two renders in all.
\<close>

theorem three_rapid_writes_render_twice:
  assumes decl: "map_of props p = Some pc" and cell: "p \<in> fst ` set (cells s)"
    and one: "entries_of RenderStream s = [(h, RenderStream, pi)]"
    and live: "\<not> closed pi"
    and idle: "\<not> throttled pi" and first: "distinct_pass pi p v1"
    and later: "\<not> (strict_eq v1 v2 \<and> strict_eq v1 v3)"
    and ok: "effects_ok hst pc v1" "effects_ok hst pc v2" "effects_ok hst pc v3"
    and sa: "sa = run hst props [SetProperty p v1] s"
    and sb: "sb = run hst props [SetProperty p v2, SetProperty p v3] sa"
    and sc: "sc = run hst props (replicate (Suc n) Tick) sb"
  shows "filter is_render (emitted s sa) = [RenderCall (cells sa)]
    \<and> map_of (cells sa) p = Some v1
    \<and> filter is_render (emitted sa sb) = []
    \<and> filter is_render (emitted sb sc) = [RenderCall (cells sb)]
    \<and> map_of (cells sb) p = Some v3
    \<and> filter is_render (emitted s sc) = [RenderCall (cells sa), RenderCall (cells sb)]"
proof -
  let ?s2 = "set_property hst props p v2 sa"
  have sa': "sa = set_property hst props p v1 s"
    by (simp add: sa run_def)
  have sb': "sb = set_property hst props p v3 ?s2"
    by (simp add: sb run_def)
  have sc': "sc = run hst props (replicate n Tick) (tick sb)"
    by (simp add: sc run_def)
  have cell_a: "p \<in> fst ` set (cells sa)"
    using cell by (simp add: sa' set_property_keys)
  have cell_2: "p \<in> fst ` set (cells ?s2)"
    using cell_a by (simp add: set_property_keys)
  have val_a: "map_of (cells sa) p = Some v1"
    using cell by (simp add: sa' set_property_cell)
  have val_b: "map_of (cells sb) p = Some v3"
    using cell_2 by (simp add: sb' set_property_cell)
  have pass: "passes hst props RenderStream p v q = (\<not> closed q \<and> distinct_pass q p v)"
    if "effects_ok hst pc v" for v q
    using that decl by (auto simp: passes_def)
  have stay: "closed (fst (pipe_next hst props RenderStream h cs p v q)) = closed q"
    if "effects_ok hst pc v" for v q cs
    using that decl by (simp add: pipe_next_closed)
  \<comment> \<open>the first write: leading edge\<close>
  define pa where "pa = fst (pipe_next hst props RenderStream h (cells sa) p v1 pi)"
  have ra: "filter is_render (emitted s sa) = [RenderCall (cells sa)]"
    and la: "entries_of RenderStream sa = [(h, RenderStream, pa)]"
    using write_through_render_stream [OF one cell, of hst props v1] live idle first
    by (simp_all add: sa' pa_def pipe_next_renders pass [OF ok(1)])
  have ca: "\<not> closed pa"
    using live by (simp add: pa_def stay [OF ok(1)])
  have ta: "throttled pa" and ka: "map_of (dedup_key pa) p = Some v1"
    using live first by (simp_all add: pa_def pipe_next_throttle pipe_next_key pass [OF ok(1)])
  \<comment> \<open>the second write\<close>
  define p2 where "p2 = fst (pipe_next hst props RenderStream h (cells ?s2) p v2 pa)"
  have r2: "filter is_render (emitted sa ?s2) = []"
    and l2: "entries_of RenderStream ?s2 = [(h, RenderStream, p2)]"
    using write_through_render_stream [OF la cell_a, of hst props v2] ta
    by (simp_all add: p2_def pipe_next_renders)
  have pass2: "passes hst props RenderStream p v2 pa = (\<not> strict_eq v1 v2)"
    using ka ca by (simp add: pass [OF ok(2)] distinct_pass_def)
  have c2: "\<not> closed p2"
    using ca by (simp add: p2_def stay [OF ok(2)])
  have t2: "throttled p2"
    using ta by (simp add: p2_def pipe_next_throttle)
  have k2: "map_of (dedup_key p2) p = Some (if strict_eq v1 v2 then v1 else v2)"
    using ka pass2 by (simp add: p2_def pipe_next_key)
  have tr2: "\<not> strict_eq v1 v2 \<Longrightarrow> trailing p2 \<noteq> None"
    using ta pass2 by (simp add: p2_def pipe_next_throttle)
  \<comment> \<open>the third write\<close>
  define p3 where "p3 = fst (pipe_next hst props RenderStream h (cells sb) p v3 p2)"
  have r3: "filter is_render (emitted ?s2 sb) = []"
    and l3: "entries_of RenderStream sb = [(h, RenderStream, p3)]"
    using write_through_render_stream [OF l2 cell_2, of hst props v3] t2
    by (simp_all add: sb' p3_def pipe_next_renders)
  have c3: "\<not> closed p3"
    using c2 by (simp add: p3_def stay [OF ok(3)])
  have t3: "throttled p3"
    using t2 by (simp add: p3_def pipe_next_throttle)
  have tr3: "trailing p3 \<noteq> None"
  proof (cases "strict_eq v1 v2")
    case True
    then have "passes hst props RenderStream p v3 p2"
      using k2 c2 later by (simp add: pass [OF ok(3)] distinct_pass_def)
    then show ?thesis
      using t2 by (simp add: p3_def pipe_next_throttle)
  next
    case False
    then show ?thesis
      using tr2 by (simp add: p3_def pipe_next_throttle)
  qed
  \<comment> \<open>the end of the interval: trailing edge\<close>
  obtain ev where ev: "trailing p3 = Some ev"
    using tr3 by auto
  have e3: "throttle_end (cells sb) p3 = (p3\<lparr>throttled := False, trailing := None\<rparr>, [RenderCall (cells sb)])"
    using t3 ev by (simp add: throttle_end_def)
  have rt: "filter is_render (emitted sb (tick sb)) = [RenderCall (cells sb)]"
    and lt: "entries_of RenderStream (tick sb)
        = [(h, RenderStream, p3\<lparr>throttled := False, trailing := None\<rparr>)]"
    using tick_through_render_stream [OF l3] e3 c3 by simp_all
  have rq: "filter is_render (emitted (tick sb) sc) = []"
    unfolding sc' using lt by (rule idle_ticks) simp
  \<comment> \<open>the pieces of the trace\<close>
  obtain o1 where x1: "trace sa = trace s @ o1"
    unfolding sa using run_trace by blast
  obtain o2 where x2: "trace ?s2 = trace sa @ o2"
    using step_trace [of hst props "SetProperty p v2" sa] by auto
  obtain o3 where x3: "trace sb = trace ?s2 @ o3"
    unfolding sb' using step_trace [of hst props "SetProperty p v3" ?s2] by auto
  obtain o4 where x4: "trace (tick sb) = trace sb @ o4"
    using tick_trace by blast
  obtain o5 where x5: "trace sc = trace (tick sb) @ o5"
    unfolding sc' using run_trace by blast
  have ab: "emitted sa sb = emitted sa ?s2 @ emitted ?s2 sb"
    using x2 x3 by (rule emitted_trans)
  have bc: "emitted sb sc = emitted sb (tick sb) @ emitted (tick sb) sc"
    using x4 x5 by (rule emitted_trans)
  have x23: "trace sb = trace sa @ (o2 @ o3)"
    using x2 x3 by simp
  have x45: "trace sc = trace sb @ (o4 @ o5)"
    using x4 x5 by simp
  have x13: "trace sb = trace s @ (o1 @ o2 @ o3)"
    using x1 x23 by simp
  have "emitted s sc = emitted s sb @ emitted sb sc"
    using x13 x45 by (rule emitted_trans)
  moreover have "emitted s sb = emitted s sa @ emitted sa sb"
    using x1 x23 by (rule emitted_trans)
  ultimately have "filter is_render (emitted s sc) = [RenderCall (cells sa), RenderCall (cells sb)]"
    using ra r2 r3 rt rq ab bc by simp
  then show ?thesis
    using ra val_a r2 r3 ab rt rq bc val_b by simp
qed

theorem three_rapid_writes_render_twice_witness:
  "entries_of RenderStream (run rejecting_host [(''prop'', empty_config\<lparr>reflect := Some True\<rparr>)]
        [OnAttach, Tick] (new_instance [(''prop'', empty_config\<lparr>reflect := Some True\<rparr>)]))
     = [(0, RenderStream, \<lparr>dedup_key = [(''prop'', JUndefined)], throttled = False, trailing = None,
           closed = False\<rparr>)]
   \<and> distinct_pass \<lparr>dedup_key = [(''prop'', JUndefined)], throttled = False, trailing = None,
        closed = False\<rparr> ''prop'' (JNum 1)
   \<and> \<not> (strict_eq (JNum 1) (JNum 2) \<and> strict_eq (JNum 1) (JNum 3))
   \<and> effects_ok rejecting_host (empty_config\<lparr>reflect := Some True\<rparr>) (JNum 1)
   \<and> effects_ok rejecting_host (empty_config\<lparr>reflect := Some True\<rparr>) (JNum 2)
   \<and> effects_ok rejecting_host (empty_config\<lparr>reflect := Some True\<rparr>) (JNum 3)
   \<and> filter is_render (emitted
        (run rejecting_host [(''prop'', empty_config\<lparr>reflect := Some True\<rparr>)] [OnAttach, Tick]
          (new_instance [(''prop'', empty_config\<lparr>reflect := Some True\<rparr>)]))
        (run rejecting_host [(''prop'', empty_config\<lparr>reflect := Some True\<rparr>)] (replicate (Suc 1) Tick)
          (run rejecting_host [(''prop'', empty_config\<lparr>reflect := Some True\<rparr>)]
            [SetProperty ''prop'' (JNum 2), SetProperty ''prop'' (JNum 3)]
            (run rejecting_host [(''prop'', empty_config\<lparr>reflect := Some True\<rparr>)]
              [SetProperty ''prop'' (JNum 1)]
              (run rejecting_host [(''prop'', empty_config\<lparr>reflect := Some True\<rparr>)] [OnAttach, Tick]
                (new_instance [(''prop'', empty_config\<lparr>reflect := Some True\<rparr>)]))))))
     = [RenderCall [(''prop'', JNum 1)], RenderCall [(''prop'', JNum 3)]]"
proof -
  let ?pc = "empty_config\<lparr>reflect := Some True\<rparr>"
  let ?P = "[(''prop'', ?pc)]"
  let ?s = "run rejecting_host ?P [OnAttach, Tick] (new_instance ?P)"
  let ?pi = "\<lparr>dedup_key = [(''prop'', JUndefined)], throttled = False, trailing = None,
      closed = False\<rparr>"
  have decl: "map_of ?P ''prop'' = Some ?pc"
    by simp
  have cell: "''prop'' \<in> fst ` set (cells ?s)"
    by code_simp
  have one: "entries_of RenderStream ?s = [(0, RenderStream, ?pi)]"
    by code_simp
  have live: "\<not> closed ?pi" and idle: "\<not> throttled ?pi"
    by simp_all
  have first: "distinct_pass ?pi ''prop'' (JNum 1)"
    by (simp add: distinct_pass_def)
  have later: "\<not> (strict_eq (JNum 1) (JNum 2) \<and> strict_eq (JNum 1) (JNum 3))"
    by simp
  have ok: "effects_ok rejecting_host ?pc (JNum 1)" "effects_ok rejecting_host ?pc (JNum 2)"
    "effects_ok rejecting_host ?pc (JNum 3)"
    by code_simp+
  have ca: "cells (run rejecting_host ?P [SetProperty ''prop'' (JNum 1)] ?s) = [(''prop'', JNum 1)]"
    by code_simp
  have cb: "cells (run rejecting_host ?P [SetProperty ''prop'' (JNum 2), SetProperty ''prop'' (JNum 3)]
      (run rejecting_host ?P [SetProperty ''prop'' (JNum 1)] ?s)) = [(''prop'', JNum 3)]"
    by code_simp
  show ?thesis
    using three_rapid_writes_render_twice [OF decl cell one live idle first later ok refl refl refl,
        of 1] one first later ok ca cb
    by simp
qed

text \<open>
  Claim C2 as stated, for any three rapid writes, fails. On an attached instance with no
  interval running, three writes of the same value reach the throttle as one change, which
  renders on the leading edge and leaves nothing for the end of the interval: one render.
  Three different writes right after attaching fall into the interval that the render of
  \<^verbatim>\<open>connectedCallback\<close> started, and none of them renders at once. Three writes to an
  instance that is not attached render nothing at all. And for a reflected property, a first
  write of an object without \<^verbatim>\<open>toString\<close> makes \<^verbatim>\<open>reflect\<close> throw, which ends the
  subscription: none of the three writes renders, nor does the end of the interval.
\<close>

theorem three_equal_writes_counterexample:
  "filter is_render (emitted
        (run rejecting_host [(''prop'', empty_config)] [OnAttach, Tick]
          (new_instance [(''prop'', empty_config)]))
        (run rejecting_host [(''prop'', empty_config)]
          [SetProperty ''prop'' (JNum 1), SetProperty ''prop'' (JNum 1), SetProperty ''prop'' (JNum 1),
           Tick, Tick]
          (run rejecting_host [(''prop'', empty_config)] [OnAttach, Tick]
            (new_instance [(''prop'', empty_config)]))))
     = [RenderCall [(''prop'', JNum 1)]]
   \<and> filter is_render (emitted
        (run rejecting_host [(''prop'', empty_config)] [OnAttach]
          (new_instance [(''prop'', empty_config)]))
        (run rejecting_host [(''prop'', empty_config)]
          [SetProperty ''prop'' (JNum 1), SetProperty ''prop'' (JNum 2), SetProperty ''prop'' (JNum 3)]
          (run rejecting_host [(''prop'', empty_config)] [OnAttach]
            (new_instance [(''prop'', empty_config)]))))
     = []
   \<and> filter is_render (trace (run rejecting_host [(''prop'', empty_config)]
          [SetProperty ''prop'' (JNum 1), SetProperty ''prop'' (JNum 2), SetProperty ''prop'' (JNum 3),
           Tick, Tick]
          (new_instance [(''prop'', empty_config)])))
     = []
   \<and> filter is_render (emitted
        (run rejecting_host [(''prop'', empty_config\<lparr>reflect := Some True\<rparr>)] [OnAttach, Tick]
          (new_instance [(''prop'', empty_config\<lparr>reflect := Some True\<rparr>)]))
        (run rejecting_host [(''prop'', empty_config\<lparr>reflect := Some True\<rparr>)]
          [SetProperty ''prop'' (JObj 0 ToStringFalsy), SetProperty ''prop'' (JNum 2),
           SetProperty ''prop'' (JNum 3), Tick, Tick]
          (run rejecting_host [(''prop'', empty_config\<lparr>reflect := Some True\<rparr>)] [OnAttach, Tick]
            (new_instance [(''prop'', empty_config\<lparr>reflect := Some True\<rparr>)]))))
     = []"
  by code_simp

section \<open>Rendering across detach and attach\<close>

lemma fold_unsubscribe_one_none:
  "subscriptions s = [] \<Longrightarrow> fold unsubscribe_one sts s = s"
  by (induction sts) (simp_all add: unsubscribe_one_def)

lemma quiet_step:
  assumes "opened s = []" "subscriptions s = []" "\<not> isAttached s" "a \<noteq> OnAttach"
  shows "opened (step hst props a s) = [] \<and> subscriptions (step hst props a s) = []
    \<and> \<not> isAttached (step hst props a s)
    \<and> (\<exists>out. trace (step hst props a s) = trace s @ out \<and> filter is_render out = [])"
proof (cases a)
  case OnAttach
  then show ?thesis using assms by simp
next
  case OnDetach
  then show ?thesis
    using assms by (simp add: disconnectedCallback_def)
next
  case (Register sts)
  then show ?thesis
    using assms fold_add_stream [of sts s] by (simp add: subscribe_def Let_def)
next
  case (Unregister sts)
  have "subscriptions (fold delete_stream sts s) = []"
    using assms fold_delete_stream [of sts s] by simp
  then have "unsubscribe sts s = fold delete_stream sts s"
    by (simp add: unsubscribe_def fold_unsubscribe_one_none)
  then show ?thesis
    using Unregister assms fold_delete_stream [of sts s] by simp
next
  case (SetProperty p v)
  then show ?thesis
    using assms by (simp add: set_property_def Let_def)
next
  case (AttributeChange at ov nv)
  then show ?thesis
    using assms
    by (simp add: attributeChangedCallback_def set_property_def Let_def
        split: option.splits sum.splits)
next
  case Tick
  then show ?thesis
    using assms by (simp add: tick_def)
next
  case (SourceEmit x)
  then show ?thesis
    using assms by (simp add: source_emit_def)
qed

lemma quiet_run:
  assumes "opened s = []" "subscriptions s = []" "\<not> isAttached s" "no_attach quiet"
  shows "opened (run hst props quiet s) = [] \<and> \<not> isAttached (run hst props quiet s)
    \<and> (\<exists>out. trace (run hst props quiet s) = trace s @ out \<and> filter is_render out = [])"
  using assms
proof (induction quiet arbitrary: s)
  case Nil
  then show ?case by (simp add: run_def)
next
  case (Cons a quiet)
  have a: "a \<noteq> OnAttach" and q: "no_attach quiet"
    using Cons.prems(4) by (cases a; simp)+
  obtain out1 where s1: "opened (step hst props a s) = []" "subscriptions (step hst props a s) = []"
      "\<not> isAttached (step hst props a s)"
    and t1: "trace (step hst props a s) = trace s @ out1" "filter is_render out1 = []"
    using quiet_step [OF Cons.prems(1-3) a, of hst props] by blast
  obtain out2 where "opened (run hst props quiet (step hst props a s)) = []"
      "\<not> isAttached (run hst props quiet (step hst props a s))"
    and t2: "trace (run hst props quiet (step hst props a s)) = trace (step hst props a s) @ out2"
      "filter is_render out2 = []"
    using Cons.IH [OF s1 q] by blast
  then show ?case
    using t1 by (simp add: run_def)
qed

lemma replay_no_render:
  assumes "st \<noteq> RenderStream \<or> throttled pi"
  shows "filter is_render (snd (replay hst props st h cs L pi)) = []"
  using assms
proof (induction L arbitrary: pi)
  case Nil
  then show ?case by simp
next
  case (Cons x L)
  obtain q w where x: "x = (q, w)" by (cases x)
  have "st \<noteq> RenderStream \<or> throttled (fst (pipe_next hst props st h cs q w pi))"
    using Cons.prems by (auto simp: pipe_next_throttle)
  then show ?case
    using Cons.IH [of "fst (pipe_next hst props st h cs q w pi)"] Cons.prems
    by (auto simp: x replay_Cons pipe_next_renders simp del: replay.simps)
qed

text \<open>
  The replay into a subscription of the constructor's stream whose interval is running:
  each value gets through and is kept for the end of the interval.
\<close>

lemma replay_trailing:
  assumes "throttled pi" "\<not> closed pi" "L \<noteq> []" "distinct (map fst L)"
    and "\<forall>q \<in> fst ` set L. map_of props q \<noteq> None \<and> map_of (dedup_key pi) q = None"
    and "replay_ok hst props L"
  shows "throttled (fst (replay hst props RenderStream h cs L pi))
    \<and> trailing (fst (replay hst props RenderStream h cs L pi)) = Some (last L)
    \<and> \<not> closed (fst (replay hst props RenderStream h cs L pi))"
  using assms
proof (induction L arbitrary: pi)
  case Nil
  then show ?case by simp
next
  case (Cons x L)
  obtain q w where x: "x = (q, w)" by (cases x)
  let ?pi = "fst (pipe_next hst props RenderStream h cs q w pi)"
  obtain pc where pc: "map_of props q = Some pc" and k: "map_of (dedup_key pi) q = None"
    using Cons.prems(5) x by auto
  have okx: "effects_ok hst pc w" and okL: "replay_ok hst props L"
    using Cons.prems(6) pc by (simp_all add: x replay_ok_Cons)
  have pass: "passes hst props RenderStream q w pi"
    using Cons.prems(2) pc okx k by (simp add: passes_def distinct_pass_def)
  have t: "throttled ?pi" and tr: "trailing ?pi = Some (q, w)" and c: "\<not> closed ?pi"
    using Cons.prems(1,2) pass pc okx by (simp_all add: pipe_next_throttle pipe_next_closed)
  show ?case
  proof (cases "L = []")
    case True
    then show ?thesis
      using t tr c by (simp add: x)
  next
    case False
    have d: "distinct (map fst L)" and n: "q \<notin> fst ` set L"
      using Cons.prems(4) x by auto
    have "\<forall>q' \<in> fst ` set L. map_of props q' \<noteq> None \<and> map_of (dedup_key ?pi) q' = None"
      using Cons.prems(5) n by (auto simp: pipe_next_key)
    then show ?thesis
      using Cons.IH [OF t c False d _ okL] False
      by (simp add: x replay_Cons del: replay.simps)
  qed
qed

text \<open>The replay into a new subscription of the constructor's stream.\<close>

lemma replay_fresh:
  assumes "L \<noteq> []" "distinct (map fst L)" "\<forall>q \<in> fst ` set L. map_of props q \<noteq> None"
    and "replay_ok hst props L"
  shows "filter is_render (snd (replay hst props RenderStream h cs L fresh_pipe)) = [RenderCall cs]"
    and "throttled (fst (replay hst props RenderStream h cs L fresh_pipe))"
    and "\<not> closed (fst (replay hst props RenderStream h cs L fresh_pipe))"
    and "(trailing (fst (replay hst props RenderStream h cs L fresh_pipe)) \<noteq> None)
           = (2 \<le> length L)"
proof -
  obtain q w rest where L: "L = (q, w) # rest"
    using assms(1) by (cases L) auto
  let ?pi = "fst (pipe_next hst props RenderStream h cs q w fresh_pipe)"
  obtain pc where pc: "map_of props q = Some pc"
    using assms(3) L by auto
  have okx: "effects_ok hst pc w" and okL: "replay_ok hst props rest"
    using assms(4) pc by (simp_all add: L replay_ok_Cons)
  have pass: "passes hst props RenderStream q w fresh_pipe"
    using pc okx by (simp add: passes_def distinct_pass_def fresh_pipe_def)
  have t: "throttled ?pi" and tr: "trailing ?pi = None" and c: "\<not> closed ?pi"
    using pass pc okx by (simp_all add: pipe_next_throttle pipe_next_closed fresh_pipe_def)
  have "filter is_render (snd (replay hst props RenderStream h cs rest ?pi)) = []"
    using t by (intro replay_no_render) simp
  then show "filter is_render (snd (replay hst props RenderStream h cs L fresh_pipe)) = [RenderCall cs]"
    using pass by (simp add: L replay_Cons pipe_next_renders fresh_pipe_def del: replay.simps(2))
  have rest: "throttled (fst (replay hst props RenderStream h cs rest ?pi))
      \<and> trailing (fst (replay hst props RenderStream h cs rest ?pi)) = Some (last rest)
      \<and> \<not> closed (fst (replay hst props RenderStream h cs rest ?pi))" if "rest \<noteq> []"
  proof -
    have d: "distinct (map fst rest)" and n: "q \<notin> fst ` set rest"
      using assms(2) L by auto
    have "\<forall>q' \<in> fst ` set rest. map_of props q' \<noteq> None \<and> map_of (dedup_key ?pi) q' = None"
      using assms(3) n by (auto simp: L pipe_next_key fresh_pipe_def)
    then show ?thesis
      using replay_trailing [OF t c that d _ okL] by simp
  qed
  show "throttled (fst (replay hst props RenderStream h cs L fresh_pipe))"
    using t rest by (cases "rest = []") (simp_all add: L replay_Cons del: replay.simps(2))
  show "\<not> closed (fst (replay hst props RenderStream h cs L fresh_pipe))"
    using c rest by (cases "rest = []") (simp_all add: L replay_Cons del: replay.simps(2))
  show "(trailing (fst (replay hst props RenderStream h cs L fresh_pipe)) \<noteq> None)
           = (2 \<le> length L)"
  proof (cases "rest = []")
    case True
    then show ?thesis using tr by (simp add: L)
  next
    case False
    then have "2 \<le> length L"
      by (cases rest) (simp_all add: L)
    then show ?thesis
      using rest [OF False] by (simp add: L replay_Cons del: replay.simps(2))
  qed
qed

lemma declared_cells:
  assumes "map fst cs = map fst props"
  shows "\<forall>q \<in> fst ` set cs. map_of props q \<noteq> None"
  using assms by (metis list.set_map map_of_eq_None_iff)

text \<open>A new subscription of the constructor's stream, and what the next end of interval does.\<close>

lemma render_stream_start:
  assumes "map fst cs = map fst props" "distinct (map fst props)" "replay_ok hst props cs"
  shows "filter is_render (snd (subscribe_start hst props RenderStream h cs)) = [RenderCall cs]"
    and "(if closed (fst (subscribe_start hst props RenderStream h cs)) then []
          else snd (throttle_end cs' (fst (subscribe_start hst props RenderStream h cs))))
         = (if 2 \<le> length props then [RenderCall cs'] else [])"
proof -
  have len: "length cs = length props"
    using assms(1) by (metis length_map)
  show "filter is_render (snd (subscribe_start hst props RenderStream h cs)) = [RenderCall cs]"
  proof (cases "props = []")
    case True
    then show ?thesis by (simp add: subscribe_start_def)
  next
    case False
    then have ne: "cs \<noteq> []"
      using len by auto
    have d: "distinct (map fst cs)"
      using assms(1,2) by simp
    show ?thesis
      using replay_fresh(1) [OF ne d declared_cells [OF assms(1)] assms(3)] False
      by (simp add: subscribe_start_def)
  qed
  show "(if closed (fst (subscribe_start hst props RenderStream h cs)) then []
          else snd (throttle_end cs' (fst (subscribe_start hst props RenderStream h cs))))
         = (if 2 \<le> length props then [RenderCall cs'] else [])"
  proof (cases "props = []")
    case True
    then show ?thesis by (simp add: subscribe_start_def)
  next
    case False
    then have ne: "cs \<noteq> []"
      using len by auto
    have d: "distinct (map fst cs)"
      using assms(1,2) by simp
    let ?pi = "fst (replay hst props RenderStream h cs cs fresh_pipe)"
    note f = replay_fresh(2-4) [OF ne d declared_cells [OF assms(1)] assms(3), of h cs]
    have "snd (throttle_end cs' ?pi) = (if 2 \<le> length cs then [RenderCall cs'] else [])"
      using f by (auto simp: throttle_end_def split: option.splits)
    then show ?thesis
      using f(2) False len by (simp add: subscribe_start_def)
  qed
qed

lemma subscribe_start_renders:
  assumes "map fst cs = map fst props" "distinct (map fst props)" "replay_ok hst props cs"
  shows "filter is_render (snd (subscribe_start hst props st h cs))
           = (if st = RenderStream then [RenderCall cs] else [])"
proof (cases st)
  case RenderStream
  then show ?thesis
    using render_stream_start(1) [OF assms] by simp
next
  case (FeedStream i)
  have "filter is_render (snd (replay hst props st h cs cs fresh_pipe)) = []"
    using FeedStream by (intro replay_no_render) simp
  then show ?thesis
    using FeedStream by (simp add: subscribe_start_def)
next
  case (ClientStream i k c)
  then show ?thesis
    by (simp add: subscribe_start_def)
qed

lemma subscribe_and_store_opened:
  "opened (subscribe_and_store hst props st s)
     = opened s @ [(next_handle s, st, fst (subscribe_start hst props st (next_handle s) (cells s)))]"
  by (simp add: subscribe_and_store_def subscribe_stream_def Let_def)

lemma fold_subscribe_renders:
  assumes "map fst (cells s) = map fst props" "distinct (map fst props)"
    and "replay_ok hst props (cells s)" "distinct sts"
  shows "\<exists>out. trace (fold (subscribe_and_store hst props) sts s) = trace s @ out
    \<and> filter is_render out = (if RenderStream \<in> set sts then [RenderCall (cells s)] else [])"
  using assms(1,3,4)
proof (induction sts arbitrary: s)
  case Nil
  then show ?case by simp
next
  case (Cons st sts)
  let ?s1 = "subscribe_and_store hst props st s"
  let ?out1 = "snd (subscribe_start hst props st (next_handle s) (cells s))"
  have t1: "trace ?s1 = trace s @ ?out1"
    by (rule subscribe_and_store_start)
  have r1: "filter is_render ?out1 = (if st = RenderStream then [RenderCall (cells s)] else [])"
    using Cons.prems(1) assms(2) Cons.prems(2) by (rule subscribe_start_renders)
  have c: "map fst (cells ?s1) = map fst props" and k: "replay_ok hst props (cells ?s1)"
    and d: "distinct sts"
    using Cons.prems by simp_all
  obtain out2 where t2: "trace (fold (subscribe_and_store hst props) sts ?s1) = trace ?s1 @ out2"
    and r2: "filter is_render out2 = (if RenderStream \<in> set sts then [RenderCall (cells ?s1)] else [])"
    using Cons.IH [OF c k d] by blast
  have "trace (fold (subscribe_and_store hst props) (st # sts) s) = trace s @ (?out1 @ out2)"
    using t1 t2 by simp
  moreover have "filter is_render (?out1 @ out2)
      = (if RenderStream \<in> set (st # sts) then [RenderCall (cells s)] else [])"
    using r1 r2 Cons.prems(3) by auto
  ultimately show ?case by blast
qed

lemma fold_subscribe_entries:
  assumes "distinct sts"
  shows "\<exists>h. entries_of RenderStream (fold (subscribe_and_store hst props) sts s)
    = entries_of RenderStream s
      @ (if RenderStream \<in> set sts
         then [(h, RenderStream, fst (subscribe_start hst props RenderStream h (cells s)))] else [])"
  using assms
proof (induction sts arbitrary: s)
  case Nil
  then show ?case by simp
next
  case (Cons st sts)
  let ?s1 = "subscribe_and_store hst props st s"
  have e1: "entries_of RenderStream ?s1 = entries_of RenderStream s
      @ (if st = RenderStream
         then [(next_handle s, RenderStream,
                fst (subscribe_start hst props RenderStream (next_handle s) (cells s)))] else [])"
    by (simp add: entries_of_def subscribe_and_store_opened)
  obtain h where e2: "entries_of RenderStream (fold (subscribe_and_store hst props) sts ?s1)
      = entries_of RenderStream ?s1
        @ (if RenderStream \<in> set sts
           then [(h, RenderStream, fst (subscribe_start hst props RenderStream h (cells ?s1)))] else [])"
    using Cons.IH [of ?s1] Cons.prems by auto
  show ?case
  proof (cases "st = RenderStream")
    case True
    then have "RenderStream \<notin> set sts"
      using Cons.prems by simp
    then show ?thesis
      using e1 e2 True by auto
  next
    case False
    then show ?thesis
      using e1 e2 by auto
  qed
qed

lemma connectedCallback_renders:
  assumes "map fst (cells s) = map fst props" "distinct (map fst props)"
    and "replay_ok hst props (cells s)"
    and "distinct (streams s)" "RenderStream \<in> set (streams s)" "opened s = []"
  shows "filter is_render (emitted s (connectedCallback hst props s)) = [RenderCall (cells s)]"
    and "filter is_render (emitted (connectedCallback hst props s)
            (tick (connectedCallback hst props s)))
          = (if 2 \<le> length props then [RenderCall (cells s)] else [])"
proof -
  let ?s1 = "s\<lparr>isAttached := True\<rparr>"
  let ?s2 = "fold (subscribe_and_store hst props) (streams ?s1) ?s1"
  let ?s3 = "connectedCallback hst props s"
  obtain out where t: "trace ?s2 = trace ?s1 @ out"
    and r: "filter is_render out = [RenderCall (cells ?s1)]"
    using fold_subscribe_renders [of ?s1 props hst "streams ?s1"] assms by auto
  have "trace ?s3 = trace s @ (out @ [Signal Connected])"
    using t by (simp add: connectedCallback_def Let_def)
  then have "emitted s ?s3 = out @ [Signal Connected]"
    by (rule emitted_append)
  then show "filter is_render (emitted s ?s3) = [RenderCall (cells s)]"
    using r by simp
  obtain h where "entries_of RenderStream ?s2
      = entries_of RenderStream ?s1
        @ [(h, RenderStream, fst (subscribe_start hst props RenderStream h (cells ?s1)))]"
    using fold_subscribe_entries [of "streams ?s1" hst props ?s1] assms(4,5) by auto
  then have one: "entries_of RenderStream ?s3
      = [(h, RenderStream, fst (subscribe_start hst props RenderStream h (cells s)))]"
    using assms(6) by (simp add: entries_of_def connectedCallback_def Let_def)
  have "filter is_render (emitted ?s3 (tick ?s3))
      = (if closed (fst (subscribe_start hst props RenderStream h (cells s))) then []
         else snd (throttle_end (cells s) (fst (subscribe_start hst props RenderStream h (cells s)))))"
    using tick_through_render_stream(1) [OF one] by simp
  also have "\<dots> = (if 2 \<le> length props then [RenderCall (cells s)] else [])"
    by (rule render_stream_start(2) [OF assms(1-3)])
  finally show "filter is_render (emitted ?s3 (tick ?s3))
          = (if 2 \<le> length props then [RenderCall (cells s)] else [])" .
qed

lemma attach_alternates_then_detach:
  "attach_alternates a acts \<Longrightarrow> attach_alternates a (acts @ [OnDetach])"
  by (induction a acts rule: attach_alternates.induct) simp_all

lemma client_streams_append:
  "client_streams (xs @ ys) = (client_streams xs \<and> client_streams ys)"
  by (induction xs rule: client_streams.induct) simp_all

lemma no_attach_alternates: "no_attach acts \<Longrightarrow> attach_alternates a acts"
  by (induction a acts rule: attach_alternates.induct) simp_all

lemma detached_no_opened:
  assumes "wf_instance props s" "\<not> isAttached s"
  shows "opened s = []" "subscriptions s = []"
proof -
  show "subscriptions s = []"
    using assms by (simp add: wf_instance_def)
  then have "set (opened_subs s) = {}"
    using assms by (simp add: wf_instance_def wf_core_def)
  then show "opened s = []"
    by (simp add: opened_subs_def)
qed

text \<open>
  Claim C4, amended. Take an instance reached by a run in which the host attaches only a
  detached instance and the client leaves the constructor's stream alone, and detach it.
  Then no subscription is left, so that whatever follows short of an attach (writes,
  attribute changes, registrations, the scheduler running what was due) renders nothing: a
  trailing render that was pending at the detach never comes. If no effect handler throws
  on the values that the properties have then, the next \<^verbatim>\<open>connectedCallback\<close> renders
  exactly once before it returns, with those values; and the end of the interval that this
  render started renders once more when the class has two or more observed properties,
  and nothing otherwise. The names of the properties are distinct, being the keys of an
  object.
\<close>

theorem detached_renders_nothing_and_attach_renders_once:
  assumes "attach_alternates False acts" and "client_streams acts"
    and "no_attach quiet" and "client_streams quiet"
    and "distinct (map fst props)"
    and "s1 = run hst props (acts @ [OnDetach]) (new_instance props)"
    and "s2 = run hst props quiet s1"
    and "replay_ok hst props (cells s2)"
    and "s3 = connectedCallback hst props s2"
  shows "opened s2 = []
    \<and> filter is_render (emitted s1 s2) = []
    \<and> filter is_render (emitted s2 s3) = [RenderCall (cells s2)]
    \<and> filter is_render (emitted s3 (tick s3))
        = (if 2 \<le> length props then [RenderCall (cells s2)] else [])"
proof -
  have a1: "attach_alternates False (acts @ [OnDetach])"
    using assms(1) by (rule attach_alternates_then_detach)
  have w1: "wf_instance props s1"
    using a1 assms(6) by (simp add: reached_instance)
  have d1: "\<not> isAttached s1"
    by (simp add: assms(6) run_def isAttached_step)
  have l1: "opened s1 = []" "subscriptions s1 = []"
    using detached_no_opened [OF w1 d1] by simp_all
  obtain out where l2: "opened s2 = []" and t2: "trace s2 = trace s1 @ out"
    and r2: "filter is_render out = []"
    using quiet_run [OF l1 d1 assms(3), of hst props] assms(7) by blast
  have e: "emitted s1 s2 = out"
    using t2 by (rule emitted_append)
  have s2: "s2 = run hst props ((acts @ [OnDetach]) @ quiet) (new_instance props)"
    using assms(6,7) by (simp only: run_append)
  have "attach_alternates (isAttached s1) quiet"
    using assms(3) by (rule no_attach_alternates)
  then have w2: "wf_instance props s2"
    using w1 assms(7) by (simp add: wf_instance_run)
  have "client_streams ((acts @ [OnDetach]) @ quiet)"
    using assms(2,4) by (simp add: client_streams_append)
  then have m2: "RenderStream \<in> set (streams s2)"
    unfolding s2 by (rule reached_render_stream)
  have c2: "map fst (cells s2) = map fst props" and ds: "distinct (streams s2)"
    using w2 by (simp_all add: wf_instance_def wf_core_def)
  note cc = connectedCallback_renders [OF c2 assms(5,8) ds m2 l2]
  show ?thesis
    using l2 e r2 cc by (simp add: assms(9))
qed

theorem detached_renders_nothing_and_attach_renders_once_witness:
  "attach_alternates False [OnAttach, SetProperty ''a'' (JNum 1), SetProperty ''a'' (JNum 2)]
   \<and> client_streams [OnAttach, SetProperty ''a'' (JNum 1), SetProperty ''a'' (JNum 2)]
   \<and> no_attach [Tick, SetProperty ''a'' (JNum 3), Tick]
   \<and> client_streams [Tick, SetProperty ''a'' (JNum 3), Tick]
   \<and> distinct (map fst [(''a'', empty_config\<lparr>reflect := Some True\<rparr>), (''b'', empty_config)])
   \<and> filter is_render (emitted
        (run rejecting_host [(''a'', empty_config\<lparr>reflect := Some True\<rparr>), (''b'', empty_config)]
          ([OnAttach, SetProperty ''a'' (JNum 1), SetProperty ''a'' (JNum 2)] @ [OnDetach])
          (new_instance [(''a'', empty_config\<lparr>reflect := Some True\<rparr>), (''b'', empty_config)]))
        (run rejecting_host [(''a'', empty_config\<lparr>reflect := Some True\<rparr>), (''b'', empty_config)]
          [Tick, SetProperty ''a'' (JNum 3), Tick]
          (run rejecting_host [(''a'', empty_config\<lparr>reflect := Some True\<rparr>), (''b'', empty_config)]
            ([OnAttach, SetProperty ''a'' (JNum 1), SetProperty ''a'' (JNum 2)] @ [OnDetach])
            (new_instance [(''a'', empty_config\<lparr>reflect := Some True\<rparr>), (''b'', empty_config)]))))
       = []
   \<and> filter is_render (emitted
        (run rejecting_host [(''a'', empty_config\<lparr>reflect := Some True\<rparr>), (''b'', empty_config)]
          [Tick, SetProperty ''a'' (JNum 3), Tick]
          (run rejecting_host [(''a'', empty_config\<lparr>reflect := Some True\<rparr>), (''b'', empty_config)]
            ([OnAttach, SetProperty ''a'' (JNum 1), SetProperty ''a'' (JNum 2)] @ [OnDetach])
            (new_instance [(''a'', empty_config\<lparr>reflect := Some True\<rparr>), (''b'', empty_config)])))
        (connectedCallback rejecting_host
          [(''a'', empty_config\<lparr>reflect := Some True\<rparr>), (''b'', empty_config)]
          (run rejecting_host [(''a'', empty_config\<lparr>reflect := Some True\<rparr>), (''b'', empty_config)]
            [Tick, SetProperty ''a'' (JNum 3), Tick]
            (run rejecting_host [(''a'', empty_config\<lparr>reflect := Some True\<rparr>), (''b'', empty_config)]
              ([OnAttach, SetProperty ''a'' (JNum 1), SetProperty ''a'' (JNum 2)] @ [OnDetach])
              (new_instance [(''a'', empty_config\<lparr>reflect := Some True\<rparr>), (''b'', empty_config)])))))
       = [RenderCall [(''a'', JNum 3), (''b'', JUndefined)]]
   \<and> filter is_render (emitted
        (connectedCallback rejecting_host
          [(''a'', empty_config\<lparr>reflect := Some True\<rparr>), (''b'', empty_config)]
          (run rejecting_host [(''a'', empty_config\<lparr>reflect := Some True\<rparr>), (''b'', empty_config)]
            [Tick, SetProperty ''a'' (JNum 3), Tick]
            (run rejecting_host [(''a'', empty_config\<lparr>reflect := Some True\<rparr>), (''b'', empty_config)]
              ([OnAttach, SetProperty ''a'' (JNum 1), SetProperty ''a'' (JNum 2)] @ [OnDetach])
              (new_instance [(''a'', empty_config\<lparr>reflect := Some True\<rparr>), (''b'', empty_config)]))))
        (tick (connectedCallback rejecting_host
          [(''a'', empty_config\<lparr>reflect := Some True\<rparr>), (''b'', empty_config)]
          (run rejecting_host [(''a'', empty_config\<lparr>reflect := Some True\<rparr>), (''b'', empty_config)]
            [Tick, SetProperty ''a'' (JNum 3), Tick]
            (run rejecting_host [(''a'', empty_config\<lparr>reflect := Some True\<rparr>), (''b'', empty_config)]
              ([OnAttach, SetProperty ''a'' (JNum 1), SetProperty ''a'' (JNum 2)] @ [OnDetach])
              (new_instance [(''a'', empty_config\<lparr>reflect := Some True\<rparr>), (''b'', empty_config)]))))))
       = [RenderCall [(''a'', JNum 3), (''b'', JUndefined)]]"
proof -
  let ?P = "[(''a'', empty_config\<lparr>reflect := Some True\<rparr>), (''b'', empty_config)]"
  let ?acts = "[OnAttach, SetProperty ''a'' (JNum 1), SetProperty ''a'' (JNum 2)]"
  let ?quiet = "[Tick, SetProperty ''a'' (JNum 3), Tick]"
  let ?s2 = "run rejecting_host ?P ?quiet
      (run rejecting_host ?P (?acts @ [OnDetach]) (new_instance ?P))"
  have a: "attach_alternates False ?acts" and b: "client_streams ?acts"
    and c: "no_attach ?quiet" and d: "client_streams ?quiet"
    and e: "distinct (map fst ?P)"
    by simp_all
  have v: "cells ?s2 = [(''a'', JNum 3), (''b'', JUndefined)]"
    by code_simp
  have k: "replay_ok rejecting_host ?P (cells ?s2)"
    unfolding v by code_simp
  show ?thesis
    using detached_renders_nothing_and_attach_renders_once [OF a b c d e refl refl k refl]
      a b c d e v
    by simp
qed

text \<open>
  Claim C4 as stated fails. After two \<^verbatim>\<open>connectedCallback\<close>s in a row the first
  subscription of the constructor's stream outlives \<^verbatim>\<open>disconnectedCallback\<close>, and a write to
  the detached instance renders. For a reflected property with the \<^verbatim>\<open>URL\<close> converter that
  is still \<^verbatim>\<open>undefined\<close>, \<^verbatim>\<open>reflect\<close> throws on the replayed value and attaching again
  renders nothing. And for a class with two observed properties, attaching again renders
  twice, at once and at the end of the interval.
\<close>

theorem render_while_detached_counterexample:
  "\<not> isAttached (run rejecting_host [(''prop'', empty_config)]
        [OnAttach, OnAttach, OnDetach, Tick] (new_instance [(''prop'', empty_config)]))
   \<and> filter is_render (emitted
        (run rejecting_host [(''prop'', empty_config)]
          [OnAttach, OnAttach, OnDetach, Tick] (new_instance [(''prop'', empty_config)]))
        (run rejecting_host [(''prop'', empty_config)]
          [OnAttach, OnAttach, OnDetach, Tick, SetProperty ''prop'' (JNum 1)]
          (new_instance [(''prop'', empty_config)])))
     = [RenderCall [(''prop'', JNum 1)]]
   \<and> filter is_render (emitted
        (run rejecting_host [(''url'', empty_config\<lparr>converter := Some URL, reflect := Some True\<rparr>)]
          [OnAttach, OnDetach]
          (new_instance [(''url'', empty_config\<lparr>converter := Some URL, reflect := Some True\<rparr>)]))
        (run rejecting_host [(''url'', empty_config\<lparr>converter := Some URL, reflect := Some True\<rparr>)]
          [OnAttach, OnDetach, OnAttach, Tick]
          (new_instance [(''url'', empty_config\<lparr>converter := Some URL, reflect := Some True\<rparr>)])))
     = []
   \<and> filter is_render (emitted
        (run rejecting_host [(''a'', empty_config), (''b'', empty_config)] [OnAttach, OnDetach]
          (new_instance [(''a'', empty_config), (''b'', empty_config)]))
        (run rejecting_host [(''a'', empty_config), (''b'', empty_config)]
          [OnAttach, OnDetach, OnAttach, Tick]
          (new_instance [(''a'', empty_config), (''b'', empty_config)])))
     = [RenderCall [(''a'', JUndefined), (''b'', JUndefined)],
        RenderCall [(''a'', JUndefined), (''b'', JUndefined)]]"
  by code_simp

end
